theory Spec2Isabelle
  imports Main "HOL-Library.Word" "HOL-Library.Multiset"
begin

unbundle bit_operations_syntax

section \<open>Bytes and little-endian integers\<close>

text \<open>
  Go's \<open>byte\<close> is an 8-bit word; \<open>int16\<close>, \<open>int32\<close> and \<open>int64\<close> are words of their
  width, read as two's complement with \<open>sint\<close>. A Go \<open>string\<close> is a sequence of bytes.
  \<open>binary.LittleEndian.PutUint32\<close> stores the least significant byte first;
  \<open>binary.LittleEndian.Uint32\<close> reads the first four bytes of the slice it is given.
\<close>

type_synonym byte = "8 word"
type_synonym gostring = "byte list"

definition put16 :: "16 word \<Rightarrow> byte list" where
  "put16 v = [ucast v, ucast (drop_bit 8 v)]"

definition get16 :: "byte list \<Rightarrow> 16 word" where
  "get16 bs = (ucast (bs ! 0) OR push_bit 8 (ucast (bs ! 1)))"

definition put32 :: "32 word \<Rightarrow> byte list" where
  "put32 v = [ucast v, ucast (drop_bit 8 v), ucast (drop_bit 16 v), ucast (drop_bit 24 v)]"

definition get32 :: "byte list \<Rightarrow> 32 word" where
  "get32 bs = (ucast (bs ! 0) OR push_bit 8 (ucast (bs ! 1)) OR push_bit 16 (ucast (bs ! 2))
     OR push_bit 24 (ucast (bs ! 3)))"

definition put64 :: "64 word \<Rightarrow> byte list" where
  "put64 v = [ucast v, ucast (drop_bit 8 v), ucast (drop_bit 16 v), ucast (drop_bit 24 v),
     ucast (drop_bit 32 v), ucast (drop_bit 40 v), ucast (drop_bit 48 v), ucast (drop_bit 56 v)]"

definition get64 :: "byte list \<Rightarrow> 64 word" where
  "get64 bs = (ucast (bs ! 0) OR push_bit 8 (ucast (bs ! 1)) OR push_bit 16 (ucast (bs ! 2))
     OR push_bit 24 (ucast (bs ! 3)) OR push_bit 32 (ucast (bs ! 4)) OR push_bit 40 (ucast (bs ! 5))
     OR push_bit 48 (ucast (bs ! 6)) OR push_bit 56 (ucast (bs ! 7)))"

section \<open>Constants (const.go)\<close>

definition MemoryPackFormatVersion :: byte where "MemoryPackFormatVersion = 0x07"
definition NullCollection :: "32 word" where "NullCollection = - 1"
definition NullObject :: byte where "NullObject = 255"
definition MaxDepth :: int where "MaxDepth = 1000"

section \<open>Errors\<close>

text \<open>
  The Go code reports every failure as an \<open>error\<close> built by \<open>fmt.Errorf\<close>; each constructor
  below stands for one message of the source. \<open>Panic\<close> is a run-time panic of the Go
  runtime or of package \<open>reflect\<close>.
\<close>

datatype kind = KInvalid | KBool | KInt | KInt8 | KInt16 | KInt32 | KInt64
  | KUint | KUint8 | KUint16 | KUint32 | KUint64 | KUintptr | KFloat32 | KFloat64
  | KComplex64 | KComplex128 | KArray | KChan | KFunc | KInterface | KMap | KPtr
  | KSlice | KString | KStruct | KUnsafePointer

datatype error =
    EndOfBuffer string
  | PeekEndOfBuffer nat
  | InvalidByteArrayLength int
  | ShortBytes int int
  | ShortString int int
  | FieldCountMismatch
  | UnsupportedType kind
  | SkipUnsupportedType kind
  | SkipStructNotImplemented
  | SkipPointerNotImplemented
  | DeserializeRequiresPointer
  | DepthExceeded
  | MemberCountTooLarge int
  | SerializeFailed error
  | DeserializeFailed error
  | Panic string

text \<open>
  The spec's error taxonomy, read off the messages: TruncatedInput is "fewer bytes available
  than required" (the end-of-buffer and requested-but-only-available messages);
  MalformedHeader is the invalid negative length. No message of the code reports a reserved
  tag, so no error is an UnsupportedTag.
\<close>

fun TruncatedInput :: "error \<Rightarrow> bool" where
  "TruncatedInput (EndOfBuffer _) = True"
| "TruncatedInput (PeekEndOfBuffer _) = True"
| "TruncatedInput (ShortBytes _ _) = True"
| "TruncatedInput (ShortString _ _) = True"
| "TruncatedInput _ = False"

fun MalformedHeader :: "error \<Rightarrow> bool" where
  "MalformedHeader (InvalidByteArrayLength _) = True"
| "MalformedHeader _ = False"

fun UnsupportedTag :: "error \<Rightarrow> bool" where
  "UnsupportedTag _ = False"

section \<open>Reader (the byte source)\<close>

text \<open>
  A \<open>*Reader\<close> is mutable; every method is modelled as a function from the reader's state
  to its result and the state after the call, also when the call fails.
\<close>

record Reader =
  r_buffer :: "byte list"
  r_pos :: nat

type_synonym 'a rd = "Reader \<Rightarrow> (error + 'a) \<times> Reader"

definition NewReader :: "byte list \<Rightarrow> Reader" where
  "NewReader data = \<lparr>r_buffer = data, r_pos = 0\<rparr>"

definition ReadByte :: "byte rd" where
  "ReadByte r =
     (if r_pos r \<ge> length (r_buffer r) then (Inl (EndOfBuffer ''byte''), r)
      else (Inr (r_buffer r ! r_pos r), r\<lparr>r_pos := r_pos r + 1\<rparr>))"

definition ReadFormatVersion :: "byte rd" where
  "ReadFormatVersion r = ReadByte r"

definition Peek :: "nat \<Rightarrow> (byte list) rd" where
  "Peek n r =
     (if r_pos r + n > length (r_buffer r) then (Inl (PeekEndOfBuffer n), r)
      else (Inr (take n (drop (r_pos r) (r_buffer r))), r))"

definition ReadInt16 :: "(16 word) rd" where
  "ReadInt16 r =
     (if r_pos r + 2 > length (r_buffer r) then (Inl (EndOfBuffer ''int16''), r)
      else (Inr (get16 (drop (r_pos r) (r_buffer r))), r\<lparr>r_pos := r_pos r + 2\<rparr>))"

definition ReadInt32 :: "(32 word) rd" where
  "ReadInt32 r =
     (if r_pos r + 4 > length (r_buffer r) then (Inl (EndOfBuffer ''int32''), r)
      else (Inr (get32 (drop (r_pos r) (r_buffer r))), r\<lparr>r_pos := r_pos r + 4\<rparr>))"

definition ReadInt64 :: "(64 word) rd" where
  "ReadInt64 r =
     (if r_pos r + 8 > length (r_buffer r) then (Inl (EndOfBuffer ''int64''), r)
      else (Inr (get64 (drop (r_pos r) (r_buffer r))), r\<lparr>r_pos := r_pos r + 8\<rparr>))"

text \<open>
  Floating-point numbers are modelled by their IEEE bit patterns: \<open>math.Float32frombits\<close>
  and \<open>math.Float32bits\<close> are then the identity.
\<close>

definition ReadFloat32 :: "(32 word) rd" where
  "ReadFloat32 r =
     (if r_pos r + 4 > length (r_buffer r) then (Inl (EndOfBuffer ''float32''), r)
      else (Inr (get32 (drop (r_pos r) (r_buffer r))), r\<lparr>r_pos := r_pos r + 4\<rparr>))"

definition ReadFloat64 :: "(64 word) rd" where
  "ReadFloat64 r =
     (if r_pos r + 8 > length (r_buffer r) then (Inl (EndOfBuffer ''float64''), r)
      else (Inr (get64 (drop (r_pos r) (r_buffer r))), r\<lparr>r_pos := r_pos r + 8\<rparr>))"

definition ReadBool :: "bool rd" where
  "ReadBool r =
     (case ReadByte r of
        (Inl e, r1) \<Rightarrow> (Inl e, r1)
      | (Inr b, r1) \<Rightarrow> (Inr (b \<noteq> 0), r1))"

text \<open>\<open>ReadBytes\<close> returns \<open>None\<close> for Go's \<open>nil\<close> slice.\<close>

definition ReadBytes :: "(byte list option) rd" where
  "ReadBytes r =
     (case ReadInt32 r of
        (Inl e, r1) \<Rightarrow> (Inl e, r1)
      | (Inr len, r1) \<Rightarrow>
          if len = NullCollection then (Inr None, r1)
          else if sint len < 0 then (Inl (InvalidByteArrayLength (sint len)), r1)
          else if sint len > int (length (r_buffer r1)) - int (r_pos r1)
            then (Inl (ShortBytes (sint len) (int (length (r_buffer r1)) - int (r_pos r1))), r1)
          else (Inr (Some (take (nat (sint len)) (drop (r_pos r1) (r_buffer r1)))),
                r1\<lparr>r_pos := r_pos r1 + nat (sint len)\<rparr>))"

definition ReadString :: "gostring rd" where
  "ReadString r =
     (case ReadInt32 r of
        (Inl e, r1) \<Rightarrow> (Inl e, r1)
      | (Inr byteCount, r1) \<Rightarrow>
          if sint byteCount \<ge> 0 then
            (if byteCount = NullCollection then (Inr [], r1) else (Inr [], r1))
          else
            (let actualByteCount = NOT byteCount in
             case ReadInt32 r1 of
               (Inl e, r2) \<Rightarrow> (Inl e, r2)
             | (Inr _, r2) \<Rightarrow>
                 if int (r_pos r2) + sint actualByteCount > int (length (r_buffer r2))
                 then (Inl (ShortString (sint actualByteCount)
                              (int (length (r_buffer r2)) - int (r_pos r2))), r2)
                 else (Inr (take (nat (sint actualByteCount)) (drop (r_pos r2) (r_buffer r2))),
                       r2\<lparr>r_pos := r_pos r2 + nat (sint actualByteCount)\<rparr>)))"

text \<open>The header readers return Go's \<open>(int, bool, error)\<close>: the count and the null flag.\<close>

definition ReadCollectionHeader :: "(int \<times> bool) rd" where
  "ReadCollectionHeader r =
     (case ReadInt32 r of
        (Inl e, r1) \<Rightarrow> (Inl e, r1)
      | (Inr len, r1) \<Rightarrow>
          if len = NullCollection then (Inr (0, True), r1)
          else (Inr (sint len, False), r1))"

definition ReadObjectHeader :: "(int \<times> bool) rd" where
  "ReadObjectHeader r =
     (case ReadByte r of
        (Inl e, r1) \<Rightarrow> (Inl e, r1)
      | (Inr header, r1) \<Rightarrow>
          if header = NullObject then (Inr (0, True), r1)
          else (Inr (uint header, False), r1))"

section \<open>Writer (the byte sink)\<close>

text \<open>
  The writer owns a buffer of \<open>length w_buffer\<close> bytes of capacity, of which the first
  \<open>w_pos\<close> are written. \<open>w_trace\<close> is a history variable, not a field of the Go struct: it
  records every value the depth counter takes, so that a statement about the counter
  "throughout" a call can be made; nothing reads it.
\<close>

record Writer =
  w_buffer :: "byte list"
  w_pos :: nat
  w_depth :: int
  w_trace :: "int list"

type_synonym wr = "Writer \<Rightarrow> error option \<times> Writer"

definition NewWriter :: "int \<Rightarrow> Writer" where
  "NewWriter initialCapacity =
     \<lparr>w_buffer = replicate (nat (if initialCapacity \<le> 0 then 64 else initialCapacity)) 0,
      w_pos = 0, w_depth = 0, w_trace = []\<rparr>"

definition CheckDepth :: wr where
  "CheckDepth w =
     (let w1 = w\<lparr>w_depth := w_depth w + 1, w_trace := w_trace w @ [w_depth w + 1]\<rparr> in
      if w_depth w1 > MaxDepth then (Some DepthExceeded, w1) else (None, w1))"

definition EndCheckDepth :: "Writer \<Rightarrow> Writer" where
  "EndCheckDepth w = w\<lparr>w_depth := w_depth w - 1, w_trace := w_trace w @ [w_depth w - 1]\<rparr>"

definition GetBytes :: "Writer \<Rightarrow> byte list" where
  "GetBytes w = take (w_pos w) (w_buffer w)"

definition ensureCapacity :: "nat \<Rightarrow> Writer \<Rightarrow> Writer" where
  "ensureCapacity additionalBytes w =
     (let requiredCapacity = w_pos w + additionalBytes in
      if requiredCapacity > length (w_buffer w) then
        (let newCapacity = (if length (w_buffer w) * 2 < requiredCapacity then requiredCapacity
                            else length (w_buffer w) * 2)
         in w\<lparr>w_buffer := w_buffer w @ replicate (newCapacity - length (w_buffer w)) 0\<rparr>)
      else w)"

text \<open>
  \<open>copy(dst[at:], src)\<close> copies as many bytes as fit. \<open>PutUint16/32/64\<close> on \<open>buffer[pos:]\<close>
  store the encoded bytes at \<open>pos\<close>; the capacity has been ensured before.
\<close>

definition copy_at :: "byte list \<Rightarrow> nat \<Rightarrow> byte list \<Rightarrow> byte list" where
  "copy_at dst at src =
     take at dst @ take (length dst - at) src @ drop (at + length src) dst"

definition WriteByte :: "byte \<Rightarrow> Writer \<Rightarrow> Writer" where
  "WriteByte v w =
     (let w1 = ensureCapacity 1 w in
      w1\<lparr>w_buffer := (w_buffer w1)[w_pos w1 := v], w_pos := w_pos w1 + 1\<rparr>)"

definition WriteFormatVersion :: "Writer \<Rightarrow> Writer" where
  "WriteFormatVersion w = WriteByte MemoryPackFormatVersion w"

definition WriteInt16 :: "16 word \<Rightarrow> Writer \<Rightarrow> Writer" where
  "WriteInt16 v w =
     (let w1 = ensureCapacity 2 w in
      w1\<lparr>w_buffer := copy_at (w_buffer w1) (w_pos w1) (put16 v), w_pos := w_pos w1 + 2\<rparr>)"

definition WriteInt32 :: "32 word \<Rightarrow> Writer \<Rightarrow> Writer" where
  "WriteInt32 v w =
     (let w1 = ensureCapacity 4 w in
      w1\<lparr>w_buffer := copy_at (w_buffer w1) (w_pos w1) (put32 v), w_pos := w_pos w1 + 4\<rparr>)"

definition WriteInt64 :: "64 word \<Rightarrow> Writer \<Rightarrow> Writer" where
  "WriteInt64 v w =
     (let w1 = ensureCapacity 8 w in
      w1\<lparr>w_buffer := copy_at (w_buffer w1) (w_pos w1) (put64 v), w_pos := w_pos w1 + 8\<rparr>)"

definition WriteFloat32 :: "32 word \<Rightarrow> Writer \<Rightarrow> Writer" where
  "WriteFloat32 v w =
     (let w1 = ensureCapacity 4 w in
      w1\<lparr>w_buffer := copy_at (w_buffer w1) (w_pos w1) (put32 v), w_pos := w_pos w1 + 4\<rparr>)"

definition WriteFloat64 :: "64 word \<Rightarrow> Writer \<Rightarrow> Writer" where
  "WriteFloat64 v w =
     (let w1 = ensureCapacity 8 w in
      w1\<lparr>w_buffer := copy_at (w_buffer w1) (w_pos w1) (put64 v), w_pos := w_pos w1 + 8\<rparr>)"

definition WriteBool :: "bool \<Rightarrow> Writer \<Rightarrow> Writer" where
  "WriteBool v w = (if v then WriteByte 1 w else WriteByte 0 w)"

text \<open>\<open>int32(len(v))\<close> keeps the low 32 bits of the length: \<open>word_of_nat\<close>.\<close>

definition WriteBytes :: "byte list option \<Rightarrow> Writer \<Rightarrow> Writer" where
  "WriteBytes v w =
     (case v of
        None \<Rightarrow> WriteInt32 NullCollection w
      | Some bs \<Rightarrow>
          (let w1 = WriteInt32 (word_of_nat (length bs)) w in
           if length bs > 0 then
             (let w2 = ensureCapacity (length bs) w1 in
              w2\<lparr>w_buffer := copy_at (w_buffer w2) (w_pos w2) bs, w_pos := w_pos w2 + length bs\<rparr>)
           else w1))"

definition WriteString :: "gostring \<Rightarrow> Writer \<Rightarrow> Writer" where
  "WriteString v w =
     (if v = [] then WriteInt32 0 w
      else
        (let utf8Bytes = v;
             utf8ByteCount = length utf8Bytes;
             w1 = ensureCapacity (utf8ByteCount + 8) w;
             w2 = WriteInt32 (NOT (word_of_nat utf8ByteCount)) w1;
             w3 = WriteInt32 (word_of_nat (length v)) w2
         in w3\<lparr>w_buffer := copy_at (w_buffer w3) (w_pos w3) utf8Bytes,
                w_pos := w_pos w3 + utf8ByteCount\<rparr>))"

definition WriteCollectionHeader :: "nat \<Rightarrow> Writer \<Rightarrow> Writer" where
  "WriteCollectionHeader len w = WriteInt32 (word_of_nat len) w"

definition WriteNullCollectionHeader :: "Writer \<Rightarrow> Writer" where
  "WriteNullCollectionHeader w = WriteInt32 NullCollection w"

definition WriteObjectHeader :: "int \<Rightarrow> wr" where
  "WriteObjectHeader memberCount w =
     (if memberCount < 0 then (None, WriteByte NullObject w)
      else if memberCount \<le> 249 then (None, WriteByte (word_of_int memberCount) w)
      else (Some (MemberCountTooLarge memberCount), w))"

section \<open>Little-endian round trip\<close>

lemma get16_put16: "get16 (put16 v @ bs) = v"
  unfolding get16_def put16_def
  apply simp
  apply (rule bit_word_eqI)
  subgoal for n
    apply (simp add: bit_simps less_diff_conv2 cong: conj_cong)
    apply (cases "n < 8", simp)
    apply simp
    done
  done

lemma get32_put32: "get32 (put32 v @ bs) = v"
  unfolding get32_def put32_def
  apply simp
  apply (rule bit_word_eqI)
  subgoal for n
    apply (simp add: bit_simps less_diff_conv2 cong: conj_cong)
    apply (cases "n < 8", simp)
    apply (cases "n < 16", simp)
    apply (cases "n < 24", simp)
    apply simp
    done
  done

lemma get64_put64: "get64 (put64 v @ bs) = v"
  unfolding get64_def put64_def
  apply simp
  apply (rule bit_word_eqI)
  subgoal for n
    apply (simp add: bit_simps less_diff_conv2 cong: conj_cong)
    apply (cases "n < 8", simp)
    apply (cases "n < 16", simp)
    apply (cases "n < 24", simp)
    apply (cases "n < 32", simp)
    apply (cases "n < 40", simp)
    apply (cases "n < 48", simp)
    apply (cases "n < 56", simp)
    apply simp
    done
  done

lemma length_put16 [simp]: "length (put16 v) = 2" by (simp add: put16_def)
lemma length_put32 [simp]: "length (put32 v) = 4" by (simp add: put32_def)
lemma length_put64 [simp]: "length (put64 v) = 8" by (simp add: put64_def)

section \<open>Go's \<open>sort.Slice\<close>\<close>

text \<open>
  \<open>createFormatterData\<close> orders the fields with \<open>sort.Slice\<close> of Go's standard library,
  which is the pattern-defeating quicksort \<open>pdqsort_func\<close> of package \<open>sort\<close> (Go 1.19 and
  later; the repository needs Go 1.22 for its range-over-int loops). The functions below
  follow that file function by function. The slice is a list, indices are Go \<open>int\<close>s,
  \<open>Less lt xs i j\<close> is the caller's \<open>less(i, j)\<close> on the current contents and \<open>Swap\<close>
  exchanges two elements (an index out of range, which pdqsort never produces, leaves the
  list as it is). The heap sort's offsets are never negative and are natural numbers.
\<close>

definition Less :: "('a \<Rightarrow> 'a \<Rightarrow> bool) \<Rightarrow> 'a list \<Rightarrow> int \<Rightarrow> int \<Rightarrow> bool" where
  "Less lt xs i j = lt (xs ! nat i) (xs ! nat j)"

definition Swap :: "int \<Rightarrow> int \<Rightarrow> 'a list \<Rightarrow> 'a list" where
  "Swap i j xs =
     (if 0 \<le> i \<and> i < int (length xs) \<and> 0 \<le> j \<and> j < int (length xs)
      then xs[nat i := xs ! nat j, nat j := xs ! nat i] else xs)"

function insertionSort_inner :: "('a \<Rightarrow> 'a \<Rightarrow> bool) \<Rightarrow> int \<Rightarrow> int \<Rightarrow> 'a list \<Rightarrow> 'a list" where
  "insertionSort_inner lt a j xs =
     (if j > a \<and> Less lt xs j (j - 1) then insertionSort_inner lt a (j - 1) (Swap j (j - 1) xs)
      else xs)"
  by pat_completeness auto
termination
  by (relation "measure (\<lambda>(lt, a, j, xs). nat (j - a))") auto
declare insertionSort_inner.simps [simp del]

function insertionSort_outer :: "('a \<Rightarrow> 'a \<Rightarrow> bool) \<Rightarrow> int \<Rightarrow> int \<Rightarrow> int \<Rightarrow> 'a list \<Rightarrow> 'a list" where
  "insertionSort_outer lt a b i xs =
     (if i < b then insertionSort_outer lt a b (i + 1) (insertionSort_inner lt a i xs) else xs)"
  by pat_completeness auto
termination
  by (relation "measure (\<lambda>(lt, a, b, i, xs). nat (b - i))") auto
declare insertionSort_outer.simps [simp del]

definition insertionSort_func :: "('a \<Rightarrow> 'a \<Rightarrow> bool) \<Rightarrow> 'a list \<Rightarrow> int \<Rightarrow> int \<Rightarrow> 'a list" where
  "insertionSort_func lt xs a b = insertionSort_outer lt a b (a + 1) xs"

function siftDown_func :: "('a \<Rightarrow> 'a \<Rightarrow> bool) \<Rightarrow> nat \<Rightarrow> nat \<Rightarrow> nat \<Rightarrow> 'a list \<Rightarrow> 'a list" where
  "siftDown_func lt root hi first xs =
     (let child = 2 * root + 1 in
      if child \<ge> hi then xs
      else
        (let child1 = (if child + 1 < hi \<and> Less lt xs (int (first + child)) (int (first + child + 1))
                       then child + 1 else child) in
         if \<not> Less lt xs (int (first + root)) (int (first + child1)) then xs
         else siftDown_func lt child1 hi first (Swap (int (first + root)) (int (first + child1)) xs)))"
  by pat_completeness auto
termination
  by (relation "measure (\<lambda>(lt, root, hi, first, xs). hi - root)") (auto simp add: Let_def)
declare siftDown_func.simps [simp del]

fun heapSort_build :: "('a \<Rightarrow> 'a \<Rightarrow> bool) \<Rightarrow> nat \<Rightarrow> nat \<Rightarrow> nat \<Rightarrow> 'a list \<Rightarrow> 'a list" where
  "heapSort_build lt 0 hi first xs = siftDown_func lt 0 hi first xs"
| "heapSort_build lt (Suc i) hi first xs =
     heapSort_build lt i hi first (siftDown_func lt (Suc i) hi first xs)"

fun heapSort_pop :: "('a \<Rightarrow> 'a \<Rightarrow> bool) \<Rightarrow> nat \<Rightarrow> nat \<Rightarrow> 'a list \<Rightarrow> 'a list" where
  "heapSort_pop lt 0 first xs = xs"
| "heapSort_pop lt (Suc i) first xs =
     heapSort_pop lt i first (siftDown_func lt 0 i first (Swap (int first) (int (first + i)) xs))"

definition heapSort_func :: "('a \<Rightarrow> 'a \<Rightarrow> bool) \<Rightarrow> 'a list \<Rightarrow> int \<Rightarrow> int \<Rightarrow> 'a list" where
  "heapSort_func lt xs a b =
     (let first = nat a; hi = nat (b - a) in
      heapSort_pop lt hi first (heapSort_build lt ((hi - 1) div 2) hi first xs))"

function scan_up :: "(int \<Rightarrow> bool) \<Rightarrow> int \<Rightarrow> int \<Rightarrow> int" where
  "scan_up P i j = (if i \<le> j \<and> P i then scan_up P (i + 1) j else i)"
  by pat_completeness auto
termination
  by (relation "measure (\<lambda>(P, i, j). nat (j + 1 - i))") auto
declare scan_up.simps [simp del]

function scan_down :: "(int \<Rightarrow> bool) \<Rightarrow> int \<Rightarrow> int \<Rightarrow> int" where
  "scan_down P i j = (if i \<le> j \<and> P j then scan_down P i (j - 1) else j)"
  by pat_completeness auto
termination
  by (relation "measure (\<lambda>(P, i, j). nat (j + 1 - i))") auto
declare scan_down.simps [simp del]

lemma scan_up_ge: "i \<le> scan_up P i j"
  by (induction P i j rule: scan_up.induct) (subst scan_up.simps, auto)

lemma scan_down_le: "scan_down P i j \<le> j"
  by (induction P i j rule: scan_down.induct) (subst scan_down.simps, auto)

lemma scan_down_ge: "i - 1 \<le> j \<Longrightarrow> i - 1 \<le> scan_down P i j"
  by (induction P i j rule: scan_down.induct) (subst scan_down.simps, auto)

function partition_loop :: "('a \<Rightarrow> 'a \<Rightarrow> bool) \<Rightarrow> int \<Rightarrow> int \<Rightarrow> int \<Rightarrow> 'a list \<Rightarrow> 'a list \<times> int" where
  "partition_loop lt a i j xs =
     (let i1 = scan_up (\<lambda>k. Less lt xs k a) i j;
          j1 = scan_down (\<lambda>k. \<not> Less lt xs k a) i1 j in
      if i1 > j1 then (xs, j1)
      else partition_loop lt a (i1 + 1) (j1 - 1) (Swap i1 j1 xs))"
  by pat_completeness auto
termination
  apply (relation "measure (\<lambda>(lt, a, i, j, xs). nat (j + 1 - i))")
   apply simp
  subgoal for lt a i j xs i1 j1
    using scan_up_ge[of i "\<lambda>k. Less lt xs k a" j] scan_down_le[of "\<lambda>k. \<not> Less lt xs k a" i1 j]
    by auto
  done
declare partition_loop.simps [simp del]


lemma partition_loop_bounds:
  "a + 1 \<le> i \<Longrightarrow> a \<le> j \<Longrightarrow> a \<le> snd (partition_loop lt a i j xs) \<and> snd (partition_loop lt a i j xs) \<le> j"
proof (induction lt a i j xs rule: partition_loop.induct)
  case (1 lt a i j xs)
  define i1 where "i1 = scan_up (\<lambda>k. Less lt xs k a) i j"
  define j1 where "j1 = scan_down (\<lambda>k. \<not> Less lt xs k a) i1 j"
  have i1: "i \<le> i1" unfolding i1_def by (rule scan_up_ge)
  have j1: "j1 \<le> j" unfolding j1_def by (rule scan_down_le)
  show ?case
  proof (cases "i1 > j1")
    case True
    have "a \<le> j1"
    proof (cases "i1 - 1 \<le> j")
      case True
      then have "i1 - 1 \<le> j1" unfolding j1_def by (rule scan_down_ge)
      with i1 "1.prems" show ?thesis by simp
    next
      case False
      then have "j1 = j" unfolding j1_def by (subst scan_down.simps) simp
      with "1.prems" show ?thesis by simp
    qed
    with True j1 show ?thesis
      by (subst (1 2) partition_loop.simps) (simp add: Let_def i1_def[symmetric] j1_def[symmetric])
  next
    case False
    then have le: "i1 \<le> j1" by simp
    have "a \<le> snd (partition_loop lt a (i1 + 1) (j1 - 1) (Swap i1 j1 xs)) \<and>
          snd (partition_loop lt a (i1 + 1) (j1 - 1) (Swap i1 j1 xs)) \<le> j1 - 1"
      using "1.IH"[OF i1_def j1_def False] i1 le "1.prems" by simp
    with False j1 show ?thesis
      by (subst (1 2) partition_loop.simps) (simp add: Let_def i1_def[symmetric] j1_def[symmetric])
  qed
qed

definition partition_func ::
  "('a \<Rightarrow> 'a \<Rightarrow> bool) \<Rightarrow> 'a list \<Rightarrow> int \<Rightarrow> int \<Rightarrow> int \<Rightarrow> 'a list \<times> int \<times> bool" where
  "partition_func lt xs a b pivot =
     (let xs1 = Swap a pivot xs;
          i = a + 1;
          j = b - 1;
          i1 = scan_up (\<lambda>k. Less lt xs1 k a) i j;
          j1 = scan_down (\<lambda>k. \<not> Less lt xs1 k a) i1 j in
      if i1 > j1 then (Swap j1 a xs1, j1, True)
      else
        (case partition_loop lt a (i1 + 1) (j1 - 1) (Swap i1 j1 xs1) of
           (xs3, j3) \<Rightarrow> (Swap j3 a xs3, j3, False)))"

function partitionEqual_loop :: "('a \<Rightarrow> 'a \<Rightarrow> bool) \<Rightarrow> int \<Rightarrow> int \<Rightarrow> int \<Rightarrow> 'a list \<Rightarrow> 'a list \<times> int" where
  "partitionEqual_loop lt a i j xs =
     (let i1 = scan_up (\<lambda>k. \<not> Less lt xs a k) i j;
          j1 = scan_down (\<lambda>k. Less lt xs a k) i1 j in
      if i1 > j1 then (xs, i1)
      else partitionEqual_loop lt a (i1 + 1) (j1 - 1) (Swap i1 j1 xs))"
  by pat_completeness auto
termination
  apply (relation "measure (\<lambda>(lt, a, i, j, xs). nat (j + 1 - i))")
   apply simp
  subgoal for lt a i j xs i1 j1
    using scan_up_ge[of i "\<lambda>k. \<not> Less lt xs a k" j] scan_down_le[of "\<lambda>k. Less lt xs a k" i1 j]
    by auto
  done
declare partitionEqual_loop.simps [simp del]

lemma partitionEqual_loop_ge: "i \<le> snd (partitionEqual_loop lt a i j xs)"
proof (induction lt a i j xs rule: partitionEqual_loop.induct)
  case (1 lt a i j xs)
  define i1 where "i1 = scan_up (\<lambda>k. \<not> Less lt xs a k) i j"
  define j1 where "j1 = scan_down (\<lambda>k. Less lt xs a k) i1 j"
  have i1: "i \<le> i1" unfolding i1_def by (rule scan_up_ge)
  show ?case
  proof (cases "i1 > j1")
    case True
    with i1 show ?thesis
      by (subst partitionEqual_loop.simps) (simp add: Let_def i1_def[symmetric] j1_def[symmetric])
  next
    case False
    have "i1 + 1 \<le> snd (partitionEqual_loop lt a (i1 + 1) (j1 - 1) (Swap i1 j1 xs))"
      using "1.IH"[OF i1_def j1_def False] .
    with False i1 show ?thesis
      by (subst partitionEqual_loop.simps) (simp add: Let_def i1_def[symmetric] j1_def[symmetric])
  qed
qed

definition partitionEqual_func ::
  "('a \<Rightarrow> 'a \<Rightarrow> bool) \<Rightarrow> 'a list \<Rightarrow> int \<Rightarrow> int \<Rightarrow> int \<Rightarrow> 'a list \<times> int" where
  "partitionEqual_func lt xs a b pivot =
     partitionEqual_loop lt a (a + 1) (b - 1) (Swap a pivot xs)"

function partialInsertionSort_scan :: "('a \<Rightarrow> 'a \<Rightarrow> bool) \<Rightarrow> 'a list \<Rightarrow> int \<Rightarrow> int \<Rightarrow> int" where
  "partialInsertionSort_scan lt xs i b =
     (if i < b \<and> \<not> Less lt xs i (i - 1) then partialInsertionSort_scan lt xs (i + 1) b else i)"
  by pat_completeness auto
termination
  by (relation "measure (\<lambda>(lt, xs, i, b). nat (b - i))") auto
declare partialInsertionSort_scan.simps [simp del]

function shift_left :: "('a \<Rightarrow> 'a \<Rightarrow> bool) \<Rightarrow> int \<Rightarrow> 'a list \<Rightarrow> 'a list" where
  "shift_left lt j xs =
     (if j \<ge> 1 then
        (if \<not> Less lt xs j (j - 1) then xs else shift_left lt (j - 1) (Swap j (j - 1) xs))
      else xs)"
  by pat_completeness auto
termination
  by (relation "measure (\<lambda>(lt, j, xs). nat j)") auto
declare shift_left.simps [simp del]

function shift_right :: "('a \<Rightarrow> 'a \<Rightarrow> bool) \<Rightarrow> int \<Rightarrow> int \<Rightarrow> 'a list \<Rightarrow> 'a list" where
  "shift_right lt j b xs =
     (if j < b then
        (if \<not> Less lt xs j (j - 1) then xs else shift_right lt (j + 1) b (Swap j (j - 1) xs))
      else xs)"
  by pat_completeness auto
termination
  by (relation "measure (\<lambda>(lt, j, b, xs). nat (b - j))") auto
declare shift_right.simps [simp del]

fun partialInsertionSort_steps ::
  "nat \<Rightarrow> ('a \<Rightarrow> 'a \<Rightarrow> bool) \<Rightarrow> int \<Rightarrow> int \<Rightarrow> int \<Rightarrow> 'a list \<Rightarrow> 'a list \<times> bool" where
  "partialInsertionSort_steps 0 lt a b i xs = (xs, False)"
| "partialInsertionSort_steps (Suc n) lt a b i xs =
     (let i1 = partialInsertionSort_scan lt xs i b in
      if i1 = b then (xs, True)
      else if b - a < 50 then (xs, False)
      else
        (let xs1 = Swap i1 (i1 - 1) xs;
             xs2 = (if i1 - a \<ge> 2 then shift_left lt (i1 - 1) xs1 else xs1);
             xs3 = (if b - i1 \<ge> 2 then shift_right lt (i1 + 1) b xs2 else xs2)
         in partialInsertionSort_steps n lt a b i1 xs3))"

definition partialInsertionSort_func ::
  "('a \<Rightarrow> 'a \<Rightarrow> bool) \<Rightarrow> 'a list \<Rightarrow> int \<Rightarrow> int \<Rightarrow> 'a list \<times> bool" where
  "partialInsertionSort_func lt xs a b = partialInsertionSort_steps 5 lt a b (a + 1) xs"

fun bits_Len :: "nat \<Rightarrow> nat" where
  "bits_Len n = (if n = 0 then 0 else Suc (bits_Len (n div 2)))"
declare bits_Len.simps [simp del]

definition xorshift_Next :: "64 word \<Rightarrow> 64 word" where
  "xorshift_Next r =
     (let r1 = r XOR push_bit 13 r;
          r2 = r1 XOR drop_bit 7 r1;
          r3 = r2 XOR push_bit 17 r2
      in r3)"

definition nextPowerOfTwo :: "int \<Rightarrow> 64 word" where
  "nextPowerOfTwo n = push_bit (bits_Len (nat n)) 1"

fun breakPatterns_loop ::
  "int list \<Rightarrow> 64 word \<Rightarrow> 64 word \<Rightarrow> int \<Rightarrow> int \<Rightarrow> int \<Rightarrow> 'a list \<Rightarrow> 'a list" where
  "breakPatterns_loop [] random modulus n idx a xs = xs"
| "breakPatterns_loop (i # is) random modulus n idx a xs =
     (let random1 = xorshift_Next random;
          other0 = uint (random1 AND (modulus - 1));
          other = (if other0 \<ge> n then other0 - n else other0)
      in breakPatterns_loop is random1 modulus n idx a (Swap (idx - 1 + i) (a + other) xs))"

definition breakPatterns_func :: "'a list \<Rightarrow> int \<Rightarrow> int \<Rightarrow> 'a list" where
  "breakPatterns_func xs a b =
     (let n = b - a in
      if n \<ge> 8 then
        (let random = word_of_int n;
             modulus = nextPowerOfTwo n;
             idx = a + (n div 4) * 2
         in breakPatterns_loop [0, 1, 2] random modulus n idx a xs)
      else xs)"

datatype sortedHint = unknownHint | increasingHint | decreasingHint

definition order2_func ::
  "('a \<Rightarrow> 'a \<Rightarrow> bool) \<Rightarrow> 'a list \<Rightarrow> int \<Rightarrow> int \<Rightarrow> nat \<Rightarrow> int \<times> int \<times> nat" where
  "order2_func lt xs a b swaps = (if Less lt xs b a then (b, a, swaps + 1) else (a, b, swaps))"

definition median_func ::
  "('a \<Rightarrow> 'a \<Rightarrow> bool) \<Rightarrow> 'a list \<Rightarrow> int \<Rightarrow> int \<Rightarrow> int \<Rightarrow> nat \<Rightarrow> int \<times> nat" where
  "median_func lt xs a b c swaps =
     (case order2_func lt xs a b swaps of (a1, b1, s1) \<Rightarrow>
      case order2_func lt xs b1 c s1 of (b2, c2, s2) \<Rightarrow>
      case order2_func lt xs a1 b2 s2 of (a3, b3, s3) \<Rightarrow> (b3, s3))"

definition medianAdjacent_func ::
  "('a \<Rightarrow> 'a \<Rightarrow> bool) \<Rightarrow> 'a list \<Rightarrow> int \<Rightarrow> nat \<Rightarrow> int \<times> nat" where
  "medianAdjacent_func lt xs a swaps = median_func lt xs (a - 1) a (a + 1) swaps"

definition choosePivot_func ::
  "('a \<Rightarrow> 'a \<Rightarrow> bool) \<Rightarrow> 'a list \<Rightarrow> int \<Rightarrow> int \<Rightarrow> int \<times> sortedHint" where
  "choosePivot_func lt xs a b =
     (let l = b - a;
          i = a + l div 4 * 1;
          j = a + l div 4 * 2;
          k = a + l div 4 * 3
      in
      case (if l \<ge> 8 then
              (case (if l \<ge> 50 then
                       (case medianAdjacent_func lt xs i 0 of (i1, s1) \<Rightarrow>
                        case medianAdjacent_func lt xs j s1 of (j1, s2) \<Rightarrow>
                        case medianAdjacent_func lt xs k s2 of (k1, s3) \<Rightarrow> (i1, j1, k1, s3))
                     else (i, j, k, 0)) of
                 (i1, j1, k1, s3) \<Rightarrow> median_func lt xs i1 j1 k1 s3)
            else (j, 0)) of
        (j2, swaps) \<Rightarrow>
          (if swaps = 0 then (j2, increasingHint)
           else if swaps = 12 then (j2, decreasingHint)
           else (j2, unknownHint)))"

function reverseRange_loop :: "int \<Rightarrow> int \<Rightarrow> 'a list \<Rightarrow> 'a list" where
  "reverseRange_loop i j xs = (if i < j then reverseRange_loop (i + 1) (j - 1) (Swap i j xs) else xs)"
  by pat_completeness auto
termination
  by (relation "measure (\<lambda>(i, j, xs). nat (j - i))") auto
declare reverseRange_loop.simps [simp del]

definition reverseRange_func :: "'a list \<Rightarrow> int \<Rightarrow> int \<Rightarrow> 'a list" where
  "reverseRange_func xs a b = reverseRange_loop a (b - 1) xs"

lemma partition_func_bounds:
  assumes "a < b" and "partition_func lt xs a b pivot = (ys, mid, ap)"
  shows "a \<le> mid \<and> mid < b"
proof -
  define xs1 where "xs1 = Swap a pivot xs"
  define i1 where "i1 = scan_up (\<lambda>k. Less lt xs1 k a) (a + 1) (b - 1)"
  define j1 where "j1 = scan_down (\<lambda>k. \<not> Less lt xs1 k a) i1 (b - 1)"
  have i1: "a + 1 \<le> i1" unfolding i1_def by (rule scan_up_ge)
  have j1: "j1 \<le> b - 1" unfolding j1_def by (rule scan_down_le)
  have j1a: "a \<le> j1"
  proof (cases "i1 - 1 \<le> b - 1")
    case True
    then have "i1 - 1 \<le> j1" unfolding j1_def by (rule scan_down_ge)
    with i1 show ?thesis by simp
  next
    case False
    then have "j1 = b - 1" unfolding j1_def by (subst scan_down.simps) simp
    with assms(1) show ?thesis by simp
  qed
  show ?thesis
  proof (cases "i1 > j1")
    case True
    with assms(2) have "mid = j1"
      by (simp add: partition_func_def Let_def xs1_def[symmetric] i1_def[symmetric] j1_def[symmetric])
    with j1 j1a show ?thesis by simp
  next
    case False
    then have le: "i1 \<le> j1" by simp
    obtain xs3 j3 where pl: "partition_loop lt a (i1 + 1) (j1 - 1) (Swap i1 j1 xs1) = (xs3, j3)"
      by (cases "partition_loop lt a (i1 + 1) (j1 - 1) (Swap i1 j1 xs1)")
    have "a \<le> j3 \<and> j3 \<le> j1 - 1"
      using partition_loop_bounds[of a "i1 + 1" "j1 - 1" lt "Swap i1 j1 xs1"] i1 le pl by simp
    moreover from assms(2) False pl have "mid = j3"
      by (simp add: partition_func_def Let_def xs1_def[symmetric] i1_def[symmetric] j1_def[symmetric])
    ultimately show ?thesis using j1 by simp
  qed
qed

lemma partitionEqual_func_bound:
  "partitionEqual_func lt xs a b pivot = (ys, mid) \<Longrightarrow> a < mid"
  using partitionEqual_loop_ge[of "a + 1" lt a "b - 1" "Swap a pivot xs"]
  by (simp add: partitionEqual_func_def)


function pdqsort_loop ::
  "('a \<Rightarrow> 'a \<Rightarrow> bool) \<Rightarrow> int \<Rightarrow> int \<Rightarrow> int \<Rightarrow> bool \<Rightarrow> bool \<Rightarrow> 'a list \<Rightarrow> 'a list" where
  "pdqsort_loop lt a b limit wasBalanced wasPartitioned xs =
     (let n = b - a in
      if n \<le> 12 then insertionSort_func lt xs a b
      else if limit = 0 then heapSort_func lt xs a b
      else
        (let xs1 = (if \<not> wasBalanced then breakPatterns_func xs a b else xs);
             limit1 = (if \<not> wasBalanced then limit - 1 else limit);
             ph = choosePivot_func lt xs1 a b;
             xs2 = (if snd ph = decreasingHint then reverseRange_func xs1 a b else xs1);
             pivot = (if snd ph = decreasingHint then (b - 1) - (fst ph - a) else fst ph);
             hint = (if snd ph = decreasingHint then increasingHint else snd ph);
             ps = (if wasBalanced \<and> wasPartitioned \<and> hint = increasingHint
                   then partialInsertionSort_func lt xs2 a b else (xs2, False));
             xs3 = fst ps
         in
         if snd ps then xs3
         else if a > 0 \<and> \<not> Less lt xs3 (a - 1) pivot then
           (let pe = partitionEqual_func lt xs3 a b pivot in
            pdqsort_loop lt (snd pe) b limit1 wasBalanced wasPartitioned (fst pe))
         else
           (let pr = partition_func lt xs3 a b pivot;
                xs4 = fst pr;
                mid = fst (snd pr);
                alreadyPartitioned = snd (snd pr);
                leftLen = mid - a;
                rightLen = b - mid;
                balanceThreshold = n div 8
            in
            if leftLen < rightLen then
              pdqsort_loop lt (mid + 1) b limit1 (leftLen \<ge> balanceThreshold) alreadyPartitioned
                (pdqsort_loop lt a mid limit1 True True xs4)
            else
              pdqsort_loop lt a mid limit1 (rightLen \<ge> balanceThreshold) alreadyPartitioned
                (pdqsort_loop lt (mid + 1) b limit1 True True xs4))))"
  by pat_completeness auto
termination
proof (relation "measure (\<lambda>(lt, a, b, limit, wb, wp, xs). nat (b - a))", goal_cases)
  case 1
  show ?case by simp
next
  case (2 lt a b limit wb wp xs n xs1 limit1 ph xs2 pivot hint ps xs3 pe)
  then show ?case
    using partitionEqual_func_bound[of lt xs3 a b pivot "fst pe" "snd pe"] by simp
next
  case (3 lt a b limit wb wp xs n xs1 limit1 ph xs2 pivot hint ps xs3 pr xs4 mid)
  then show ?case
    using partition_func_bounds[of a b lt xs3 pivot xs4 mid "snd (snd pr)"] by simp
next
  case (4 lt a b limit wb wp xs n xs1 limit1 ph xs2 pivot hint ps xs3 pr xs4 mid)
  then show ?case
    using partition_func_bounds[of a b lt xs3 pivot xs4 mid "snd (snd pr)"] by simp
next
  case (5 lt a b limit wb wp xs n xs1 limit1 ph xs2 pivot hint ps xs3 pr xs4 mid)
  then show ?case
    using partition_func_bounds[of a b lt xs3 pivot xs4 mid "snd (snd pr)"] by simp
next
  case (6 lt a b limit wb wp xs n xs1 limit1 ph xs2 pivot hint ps xs3 pr xs4 mid)
  then show ?case
    using partition_func_bounds[of a b lt xs3 pivot xs4 mid "snd (snd pr)"] by simp
qed
declare pdqsort_loop.simps [simp del]

definition pdqsort_func :: "('a \<Rightarrow> 'a \<Rightarrow> bool) \<Rightarrow> 'a list \<Rightarrow> int \<Rightarrow> int \<Rightarrow> int \<Rightarrow> 'a list" where
  "pdqsort_func lt xs a b limit = pdqsort_loop lt a b limit True True xs"

definition sortSlice :: "('a \<Rightarrow> 'a \<Rightarrow> bool) \<Rightarrow> 'a list \<Rightarrow> 'a list" where
  "sortSlice lt xs = pdqsort_func lt xs 0 (int (length xs)) (int (bits_Len (length xs)))"

section \<open>Types and values (package \<open>reflect\<close>)\<close>

datatype 'a fieldT = Field (f_name: string) (f_pkgpath: string) (f_tag: string) (f_type: 'a)

datatype ty = TBool | TInt | TInt8 | TInt16 | TInt32 | TInt64 | TFloat32 | TFloat64 | TString
  | TSlice ty | TArray nat ty | TMap ty ty | TStruct "ty fieldT list" | TPtr ty | TOther kind

type_synonym field = "ty fieldT"

fun kind_of :: "ty \<Rightarrow> kind" where
  "kind_of TBool = KBool"
| "kind_of TInt = KInt"
| "kind_of TInt8 = KInt8"
| "kind_of TInt16 = KInt16"
| "kind_of TInt32 = KInt32"
| "kind_of TInt64 = KInt64"
| "kind_of TFloat32 = KFloat32"
| "kind_of TFloat64 = KFloat64"
| "kind_of TString = KString"
| "kind_of (TSlice _) = KSlice"
| "kind_of (TArray _ _) = KArray"
| "kind_of (TMap _ _) = KMap"
| "kind_of (TStruct _) = KStruct"
| "kind_of (TPtr _) = KPtr"
| "kind_of (TOther k) = k"

datatype val = VBool bool | VInt8 "8 word" | VInt16 "16 word" | VInt32 "32 word" | VInt64 "64 word"
  | VFloat32 "32 word" | VFloat64 "64 word" | VString gostring
  | VBytes "byte list option" | VSlice "val list option" | VArray "val list"
  | VMap "(val \<times> val) list option" | VStruct "val list" | VPtr "val option" | VOther

text \<open>
  Package \<open>reflect\<close> hands a \<open>float32\<close> out as a \<open>float64\<close> (\<open>Value.Float\<close>) and takes it back
  as one (\<open>Value.SetFloat\<close>), so the walkers convert every \<open>float32\<close> to \<open>float64\<close> and back.
  That conversion returns the same bits for every number and infinity, and for a NaN it
  sets the quiet bit: a signaling NaN comes back quiet. \<open>via_float64\<close> is that conversion
  on bit patterns.
\<close>

definition is_nan32 :: "32 word \<Rightarrow> bool" where
  "is_nan32 x = (x AND 0x7F800000 = 0x7F800000 \<and> x AND 0x007FFFFF \<noteq> 0)"

definition is_nan64 :: "64 word \<Rightarrow> bool" where
  "is_nan64 x = (x AND 0x7FF0000000000000 = 0x7FF0000000000000 \<and> x AND 0x000FFFFFFFFFFFFF \<noteq> 0)"

definition via_float64 :: "32 word \<Rightarrow> 32 word" where
  "via_float64 x = (if is_nan32 x then x OR 0x00400000 else x)"

lemma size_f_type [termination_simp]:
  "x \<in> set fs \<Longrightarrow> size (f_type x) < Suc (size_list (size_fieldT size) fs)"
  by (induction fs) (auto simp add: less_Suc_eq_le fieldT.size_gen split: fieldT.splits, (cases x; simp)+)

fun zero :: "ty \<Rightarrow> val" where
  "zero TBool = VBool False"
| "zero TInt = VInt64 0"
| "zero TInt8 = VInt8 0"
| "zero TInt16 = VInt16 0"
| "zero TInt32 = VInt32 0"
| "zero TInt64 = VInt64 0"
| "zero TFloat32 = VFloat32 0"
| "zero TFloat64 = VFloat64 0"
| "zero TString = VString []"
| "zero (TSlice t) = (if kind_of t = KUint8 then VBytes None else VSlice None)"
| "zero (TArray n t) = VArray (replicate n (zero t))"
| "zero (TMap k t) = VMap None"
| "zero (TStruct fs) = VStruct (map (\<lambda>f. zero (f_type f)) fs)"
| "zero (TPtr t) = VPtr None"
| "zero (TOther k) = VOther"

definition kind_mismatch :: error where
  "kind_mismatch = Panic ''reflect: call of a Value method on a value of another kind''"

section \<open>Field schema (struct.go)\<close>

record fieldInfo =
  fi_index :: nat
  fi_kind :: kind
  fi_name :: string
  fi_order :: int

definition is_digit :: "char \<Rightarrow> bool" where
  "is_digit c = (48 \<le> (of_char c :: nat) \<and> (of_char c :: nat) \<le> 57)"

fun digits_value :: "nat \<Rightarrow> string \<Rightarrow> nat" where
  "digits_value n [] = n"
| "digits_value n (c # cs) = digits_value (n * 10 + (of_char c - 48)) cs"

definition Atoi :: "string \<Rightarrow> int option" where
  "Atoi s =
     (let neg = (s \<noteq> [] \<and> hd s = CHR ''-'');
          ds = (if s \<noteq> [] \<and> (hd s = CHR ''-'' \<or> hd s = CHR ''+'') then tl s else s)
      in
      if ds = [] then None
      else if list_all is_digit ds then
        (let n = int (digits_value 0 ds);
             v = (if neg then - n else n)
         in if - (2 ^ 63) \<le> v \<and> v \<le> 2 ^ 63 - 1 then Some v else None)
      else None)"

definition Split_first :: "string \<Rightarrow> string" where
  "Split_first tag = takeWhile (\<lambda>c. c \<noteq> CHR '','') tag"

fun collect_fields :: "nat \<Rightarrow> field list \<Rightarrow> fieldInfo list" where
  "collect_fields i [] = []"
| "collect_fields i (f # fs) =
     (if f_pkgpath f \<noteq> [] then collect_fields (i + 1) fs
      else
        (let tag = f_tag f;
             order =
               (if tag \<noteq> [] \<and> tag \<noteq> ''-'' then
                  (let orderStr = Split_first tag in
                   if orderStr \<noteq> [] then
                     (case Atoi orderStr of Some parsedOrder \<Rightarrow> parsedOrder | None \<Rightarrow> int i)
                   else int i)
                else int i)
         in
         if tag = ''-'' then collect_fields (i + 1) fs
         else \<lparr>fi_index = i, fi_kind = kind_of (f_type f), fi_name = f_name f, fi_order = order\<rparr>
              # collect_fields (i + 1) fs))"

definition createFormatterData :: "field list \<Rightarrow> fieldInfo list" where
  "createFormatterData fs = sortSlice (\<lambda>x y. fi_order x < fi_order y) (collect_fields 0 fs)"

definition getFormatterData :: "field list \<Rightarrow> fieldInfo list" where
  "getFormatterData fs = createFormatterData fs"

section \<open>The writer's walker\<close>

definition with_depth :: "Writer \<Rightarrow> wr \<Rightarrow> error option \<times> Writer" where
  "with_depth w body =
     (case CheckDepth w of
        (Some e, w1) \<Rightarrow> (Some e, w1)
      | (None, w1) \<Rightarrow> (case body w1 of (r, w2) \<Rightarrow> (r, EndCheckDepth w2)))"

fun write_all :: "('a \<Rightarrow> wr) \<Rightarrow> 'a list \<Rightarrow> wr" where
  "write_all f [] w = (None, w)"
| "write_all f (x # xs) w =
     (case f x w of
        (Some e, w1) \<Rightarrow> (Some e, w1)
      | (None, w1) \<Rightarrow> write_all f xs w1)"

function writeValue :: "ty \<Rightarrow> val \<Rightarrow> wr"
  and SerializeStruct :: "field list \<Rightarrow> val \<Rightarrow> wr" where
  "writeValue TBool v w = with_depth w (\<lambda>w1.
     case v of VBool b \<Rightarrow> (None, WriteBool b w1) | _ \<Rightarrow> (Some kind_mismatch, w1))"
| "writeValue TInt8 v w = with_depth w (\<lambda>w1.
     case v of VInt8 x \<Rightarrow> (None, WriteByte x w1) | _ \<Rightarrow> (Some kind_mismatch, w1))"
| "writeValue TInt16 v w = with_depth w (\<lambda>w1.
     case v of VInt16 x \<Rightarrow> (None, WriteInt16 x w1) | _ \<Rightarrow> (Some kind_mismatch, w1))"
| "writeValue TInt32 v w = with_depth w (\<lambda>w1.
     case v of VInt32 x \<Rightarrow> (None, WriteInt32 x w1) | _ \<Rightarrow> (Some kind_mismatch, w1))"
| "writeValue TInt v w = with_depth w (\<lambda>w1.
     case v of VInt64 x \<Rightarrow> (None, WriteInt64 x w1) | _ \<Rightarrow> (Some kind_mismatch, w1))"
| "writeValue TInt64 v w = with_depth w (\<lambda>w1.
     case v of VInt64 x \<Rightarrow> (None, WriteInt64 x w1) | _ \<Rightarrow> (Some kind_mismatch, w1))"
| "writeValue TFloat32 v w = with_depth w (\<lambda>w1.
     case v of VFloat32 x \<Rightarrow> (None, WriteFloat32 (via_float64 x) w1)
     | _ \<Rightarrow> (Some kind_mismatch, w1))"
| "writeValue TFloat64 v w = with_depth w (\<lambda>w1.
     case v of VFloat64 x \<Rightarrow> (None, WriteFloat64 x w1) | _ \<Rightarrow> (Some kind_mismatch, w1))"
| "writeValue TString v w = with_depth w (\<lambda>w1.
     case v of VString s \<Rightarrow> (None, WriteString s w1) | _ \<Rightarrow> (Some kind_mismatch, w1))"
| "writeValue (TSlice et) v w = with_depth w (\<lambda>w1.
     case v of
       VBytes None \<Rightarrow> (None, WriteNullCollectionHeader w1)
     | VSlice None \<Rightarrow> (None, WriteNullCollectionHeader w1)
     | VBytes (Some bs) \<Rightarrow>
         (if kind_of et = KUint8 then (None, WriteBytes (Some bs) w1)
          else (Some kind_mismatch, w1))
     | VSlice (Some vs) \<Rightarrow>
         (if kind_of et = KUint8 then (Some kind_mismatch, w1)
          else write_all (\<lambda>x w2. writeValue et x w2) vs (WriteCollectionHeader (length vs) w1))
     | _ \<Rightarrow> (Some kind_mismatch, w1))"
| "writeValue (TArray n et) v w = with_depth w (\<lambda>w1.
     case v of
       VArray vs \<Rightarrow>
         write_all (\<lambda>x w2. writeValue et x w2) vs (WriteCollectionHeader (length vs) w1)
     | _ \<Rightarrow> (Some kind_mismatch, w1))"
| "writeValue (TMap kt vt) v w = with_depth w (\<lambda>w1.
     case v of
       VMap None \<Rightarrow> (None, WriteNullCollectionHeader w1)
     | VMap (Some kvs) \<Rightarrow>
         (let w2 = WriteCollectionHeader (length kvs) w1 in
          if length kvs > 0 then
            write_all (\<lambda>kv w3.
               case writeValue kt (fst kv) w3 of
                 (Some e, w4) \<Rightarrow> (Some e, w4)
               | (None, w4) \<Rightarrow> writeValue vt (snd kv) w4) kvs w2
          else (None, w2))
     | _ \<Rightarrow> (Some kind_mismatch, w1))"
| "writeValue (TStruct fs) v w = with_depth w (\<lambda>w1. SerializeStruct fs v w1)"
| "writeValue (TPtr et) v w = with_depth w (\<lambda>w1.
     case v of
       VPtr (Some x) \<Rightarrow> writeValue et x w1
     | VPtr None \<Rightarrow> (None, WriteByte NullObject w1)
     | _ \<Rightarrow> (Some kind_mismatch, w1))"
| "writeValue (TOther k) v w = with_depth w (\<lambda>w1. (Some (UnsupportedType k), w1))"
| "SerializeStruct fs v w =
     (let fd = getFormatterData fs in
      case WriteObjectHeader (int (length fd)) w of
        (Some e, w1) \<Rightarrow> (Some e, w1)
      | (None, w1) \<Rightarrow>
          write_all (\<lambda>fi w2.
             case v of
               VStruct vs \<Rightarrow>
                 (if fi_index fi < length fs \<and> fi_index fi < length vs
                  then writeValue (f_type (fs ! fi_index fi)) (vs ! fi_index fi) w2
                  else (Some (Panic ''reflect: Field index out of range''), w2))
             | _ \<Rightarrow> (Some kind_mismatch, w2)) fd w1)"
  by pat_completeness auto
termination
  by (relation "measure (\<lambda>x. case x of Inl (t, v, w) \<Rightarrow> 2 * size t + 1
                              | Inr (fs, v, w) \<Rightarrow> 2 * size (TStruct fs))")
     (auto simp add: size_f_type less_Suc_eq_le dest!: nth_mem[THEN size_f_type])


declare SerializeStruct.simps [simp del]

text \<open>
  \<open>Serialize\<close> takes the value with its static type; \<open>formatter\<close> is the value's
  \<open>Formatter.Serialize\<close> method when its type implements \<open>Formatter\<close>. \<open>Elem\<close> is
  \<open>v.Elem()\<close> of a non-nil pointer. \<open>Serialize_generic\<close> is the part of \<open>Serialize\<close> after the
  formatter branch, \<open>Serialize_run\<close> the body up to its last statement, returning the
  writer with the error.
\<close>

definition Elem :: "ty \<times> val \<Rightarrow> ty \<times> val" where
  "Elem tv = (case tv of (TPtr et, VPtr (Some x)) \<Rightarrow> (et, x) | _ \<Rightarrow> tv)"

definition Serialize_generic :: "ty \<Rightarrow> val \<Rightarrow> wr" where
  "Serialize_generic t v w1 =
     (if kind_of t = KPtr \<and> v = VPtr None then (None, WriteByte NullObject w1)
      else
        (case (if kind_of t = KPtr then Elem (t, v) else (t, v)) of
           (t1, v1) \<Rightarrow>
             (case t1 of
                TStruct fs \<Rightarrow> SerializeStruct fs v1 w1
              | _ \<Rightarrow> writeValue t1 v1 w1)))"

definition Serialize_run :: "wr option \<Rightarrow> ty \<Rightarrow> val \<Rightarrow> error option \<times> Writer" where
  "Serialize_run formatter t v =
     (let writer = NewWriter 128 in
      case (case formatter of
              Some fmt \<Rightarrow>
                (case fmt writer of
                   (Some e, w1) \<Rightarrow> (Some (SerializeFailed e), w1)
                 | (None, w1) \<Rightarrow> (None, w1))
            | None \<Rightarrow> (None, writer)) of
        (Some e, w1) \<Rightarrow> (Some e, w1)
      | (None, w1) \<Rightarrow> Serialize_generic t v w1)"

definition Serialize :: "wr option \<Rightarrow> ty \<Rightarrow> val \<Rightarrow> error + byte list" where
  "Serialize formatter t v =
     (case Serialize_run formatter t v of
        (Some e, w) \<Rightarrow> Inl e
      | (None, w) \<Rightarrow> Inr (GetBytes w))"

section \<open>The reader's walker\<close>

text \<open>
  \<open>MakeSlice et n\<close> is \<open>reflect.MakeSlice\<close>: \<open>n\<close> zero elements, which the loop then fills in
  place. A map value is the list of its entries in iteration order. \<open>SetMapIndex\<close> is Go's
  map assignment: an entry whose key is \<open>==\<close> to the new key is overwritten (key and
  value), otherwise the entry is added. \<open>key_eq t\<close> is Go's \<open>==\<close> at type \<open>t\<close> on the keys the
  reader builds: floating-point numbers compare by value (a NaN equals nothing, the two
  zeros are equal), arrays and structs element by element (fields named \<open>_\<close> are skipped),
  and a pointer the reader has just allocated equals no other pointer, so two pointer keys
  are equal only when both are nil.
\<close>

definition MakeSlice :: "ty \<Rightarrow> nat \<Rightarrow> val list" where
  "MakeSlice et n = replicate n (zero et)"

fun SetMapIndex :: "('k \<Rightarrow> 'k \<Rightarrow> bool) \<Rightarrow> 'k \<Rightarrow> 'v \<Rightarrow> ('k \<times> 'v) list \<Rightarrow> ('k \<times> 'v) list" where
  "SetMapIndex eq k v [] = [(k, v)]"
| "SetMapIndex eq k v (p # ps) = (if eq (fst p) k then (k, v) # ps else p # SetMapIndex eq k v ps)"

definition float_eq32 :: "32 word \<Rightarrow> 32 word \<Rightarrow> bool" where
  "float_eq32 x y =
     (\<not> is_nan32 x \<and> \<not> is_nan32 y \<and> (x = y \<or> (x AND 0x7FFFFFFF = 0 \<and> y AND 0x7FFFFFFF = 0)))"

definition float_eq64 :: "64 word \<Rightarrow> 64 word \<Rightarrow> bool" where
  "float_eq64 x y =
     (\<not> is_nan64 x \<and> \<not> is_nan64 y
      \<and> (x = y \<or> (x AND 0x7FFFFFFFFFFFFFFF = 0 \<and> y AND 0x7FFFFFFFFFFFFFFF = 0)))"

fun key_eq :: "ty \<Rightarrow> val \<Rightarrow> val \<Rightarrow> bool" where
  "key_eq TFloat32 a b =
     (case a of VFloat32 x \<Rightarrow> (case b of VFloat32 y \<Rightarrow> float_eq32 x y | _ \<Rightarrow> False) | _ \<Rightarrow> False)"
| "key_eq TFloat64 a b =
     (case a of VFloat64 x \<Rightarrow> (case b of VFloat64 y \<Rightarrow> float_eq64 x y | _ \<Rightarrow> False) | _ \<Rightarrow> False)"
| "key_eq (TArray n et) a b =
     (case a of
        VArray xs \<Rightarrow>
          (case b of
             VArray ys \<Rightarrow>
               length xs = length ys
               \<and> list_all (\<lambda>i. key_eq et (xs ! i) (ys ! i)) [0..<length xs]
           | _ \<Rightarrow> False)
      | _ \<Rightarrow> False)"
| "key_eq (TStruct fs) a b =
     (case a of
        VStruct xs \<Rightarrow>
          (case b of
             VStruct ys \<Rightarrow>
               length xs = length fs \<and> length ys = length fs
               \<and> list_all (\<lambda>i. f_name (fs ! i) = ''_''
                                \<or> key_eq (f_type (fs ! i)) (xs ! i) (ys ! i)) [0..<length fs]
           | _ \<Rightarrow> False)
      | _ \<Rightarrow> False)"
| "key_eq (TPtr et) a b = (a = VPtr None \<and> b = VPtr None)"
| "key_eq _ a b = (a = b)"

fun read_array :: "('a \<Rightarrow> 'a rd) \<Rightarrow> nat \<Rightarrow> nat \<Rightarrow> 'a list \<Rightarrow> ('a list) rd" where
  "read_array f 0 i vs r = (Inr vs, r)"
| "read_array f (Suc k) i vs r =
     (if i \<ge> length vs then (Inl (Panic ''reflect: array index out of range''), r)
      else
        (case f (vs ! i) r of
           (Inl e, r1) \<Rightarrow> (Inl e, r1)
         | (Inr x, r1) \<Rightarrow> read_array f k (i + 1) (vs[i := x]) r1))"

fun read_map ::
  "('k \<Rightarrow> 'k \<Rightarrow> bool) \<Rightarrow> nat \<Rightarrow> 'k rd \<Rightarrow> 'v rd \<Rightarrow> ('k \<times> 'v) list \<Rightarrow> (('k \<times> 'v) list) rd" where
  "read_map eq 0 fk fv m r = (Inr m, r)"
| "read_map eq (Suc n) fk fv m r =
     (case fk r of
        (Inl e, r1) \<Rightarrow> (Inl e, r1)
      | (Inr k, r1) \<Rightarrow>
          (case fv r1 of
             (Inl e, r2) \<Rightarrow> (Inl e, r2)
           | (Inr x, r2) \<Rightarrow> read_map eq n fk fv (SetMapIndex eq k x m) r2))"

fun read_fields :: "('i \<Rightarrow> 'a list \<Rightarrow> ('a list) rd) \<Rightarrow> 'i list \<Rightarrow> 'a list \<Rightarrow> ('a list) rd" where
  "read_fields f [] vs r = (Inr vs, r)"
| "read_fields f (fi # fis) vs r =
     (case f fi vs r of
        (Inl e, r1) \<Rightarrow> (Inl e, r1)
      | (Inr vs1, r1) \<Rightarrow> read_fields f fis vs1 r1)"

type_synonym sk = "Reader \<Rightarrow> error option \<times> Reader"

fun skip_n :: "nat \<Rightarrow> sk \<Rightarrow> sk" where
  "skip_n 0 f r = (None, r)"
| "skip_n (Suc n) f r =
     (case f r of
        (Some e, r1) \<Rightarrow> (Some e, r1)
      | (None, r1) \<Rightarrow> skip_n n f r1)"

definition discard :: "'a rd \<Rightarrow> sk" where
  "discard f r = (case f r of (Inl e, r1) \<Rightarrow> (Some e, r1) | (Inr _, r1) \<Rightarrow> (None, r1))"

definition skipValue :: "kind \<Rightarrow> sk" where
  "skipValue k r =
     (if k = KBool \<or> k = KInt8 \<or> k = KUint8 then discard ReadByte r
      else if k = KInt16 \<or> k = KUint16 then discard ReadInt16 r
      else if k = KInt32 \<or> k = KUint32 \<or> k = KFloat32 then discard ReadInt32 r
      else if k = KInt64 \<or> k = KUint64 \<or> k = KFloat64 then discard ReadInt64 r
      else if k = KString then discard ReadString r
      else if k = KSlice \<or> k = KArray then
        (case ReadCollectionHeader r of
           (Inl e, r1) \<Rightarrow> (Some e, r1)
         | (Inr (len, isNull), r1) \<Rightarrow>
             if isNull then (None, r1) else skip_n (nat len) (discard ReadInt32) r1)
      else if k = KMap then
        (case ReadCollectionHeader r of
           (Inl e, r1) \<Rightarrow> (Some e, r1)
         | (Inr (len, isNull), r1) \<Rightarrow>
             if isNull then (None, r1)
             else skip_n (nat len)
                    (\<lambda>r2. case discard ReadString r2 of
                             (Some e, r3) \<Rightarrow> (Some e, r3)
                           | (None, r3) \<Rightarrow> discard ReadString r3) r1)
      else if k = KStruct then
        (case ReadObjectHeader r of
           (Inl e, r1) \<Rightarrow> (Some e, r1)
         | (Inr (_, isNull), r1) \<Rightarrow>
             if isNull then (None, r1) else (Some SkipStructNotImplemented, r1))
      else if k = KPtr then
        (case ReadByte r of
           (Inl e, r1) \<Rightarrow> (Some e, r1)
         | (Inr header, r1) \<Rightarrow>
             if header = NullObject then (None, r1) else (Some SkipPointerNotImplemented, r1))
      else (Some (SkipUnsupportedType k), r))"

definition CanSet :: "field \<Rightarrow> bool" where
  "CanSet f = (f_pkgpath f = [])"

function readValue :: "ty \<Rightarrow> val \<Rightarrow> val rd"
  and DeserializeStruct :: "field list \<Rightarrow> val \<Rightarrow> val rd" where
  "readValue TBool cur r =
     (case ReadBool r of (Inl e, r1) \<Rightarrow> (Inl e, r1) | (Inr x, r1) \<Rightarrow> (Inr (VBool x), r1))"
| "readValue TInt8 cur r =
     (case ReadByte r of (Inl e, r1) \<Rightarrow> (Inl e, r1) | (Inr x, r1) \<Rightarrow> (Inr (VInt8 x), r1))"
| "readValue TInt16 cur r =
     (case ReadInt16 r of (Inl e, r1) \<Rightarrow> (Inl e, r1) | (Inr x, r1) \<Rightarrow> (Inr (VInt16 x), r1))"
| "readValue TInt32 cur r =
     (case ReadInt32 r of (Inl e, r1) \<Rightarrow> (Inl e, r1) | (Inr x, r1) \<Rightarrow> (Inr (VInt32 x), r1))"
| "readValue TInt cur r =
     (case ReadInt64 r of (Inl e, r1) \<Rightarrow> (Inl e, r1) | (Inr x, r1) \<Rightarrow> (Inr (VInt64 x), r1))"
| "readValue TInt64 cur r =
     (case ReadInt64 r of (Inl e, r1) \<Rightarrow> (Inl e, r1) | (Inr x, r1) \<Rightarrow> (Inr (VInt64 x), r1))"
| "readValue TFloat32 cur r =
     (case ReadFloat32 r of
        (Inl e, r1) \<Rightarrow> (Inl e, r1)
      | (Inr x, r1) \<Rightarrow> (Inr (VFloat32 (via_float64 x)), r1))"
| "readValue TFloat64 cur r =
     (case ReadFloat64 r of (Inl e, r1) \<Rightarrow> (Inl e, r1) | (Inr x, r1) \<Rightarrow> (Inr (VFloat64 x), r1))"
| "readValue TString cur r =
     (case ReadString r of (Inl e, r1) \<Rightarrow> (Inl e, r1) | (Inr x, r1) \<Rightarrow> (Inr (VString x), r1))"
| "readValue (TSlice et) cur r =
     (if kind_of et = KUint8 then
        (case ReadBytes r of (Inl e, r1) \<Rightarrow> (Inl e, r1) | (Inr bs, r1) \<Rightarrow> (Inr (VBytes bs), r1))
      else
        (case ReadCollectionHeader r of
           (Inl e, r1) \<Rightarrow> (Inl e, r1)
         | (Inr (len, isNull), r1) \<Rightarrow>
             if isNull then (Inr (VSlice None), r1)
             else if len < 0 then (Inl (Panic ''reflect.MakeSlice: negative len''), r1)
             else
               (let slice = MakeSlice et (nat len) in
                case read_array (\<lambda>x r2. readValue et x r2) (nat len) 0 slice r1 of
                  (Inl e, r2) \<Rightarrow> (Inl e, r2)
                | (Inr vs, r2) \<Rightarrow> (Inr (VSlice (Some vs)), r2))))"
| "readValue (TArray n et) cur r =
     (case ReadCollectionHeader r of
        (Inl e, r1) \<Rightarrow> (Inl e, r1)
      | (Inr (len, isNull), r1) \<Rightarrow>
          if isNull then (Inr cur, r1)
          else
            (case cur of
               VArray vs \<Rightarrow>
                 (case read_array (\<lambda>x r2. readValue et x r2) (nat len) 0 vs r1 of
                    (Inl e, r2) \<Rightarrow> (Inl e, r2)
                  | (Inr vs1, r2) \<Rightarrow> (Inr (VArray vs1), r2))
             | _ \<Rightarrow> (Inl kind_mismatch, r1)))"
| "readValue (TMap kt vt) cur r =
     (case ReadCollectionHeader r of
        (Inl e, r1) \<Rightarrow> (Inl e, r1)
      | (Inr (len, isNull), r1) \<Rightarrow>
          if isNull then (Inr (VMap None), r1)
          else
            (case read_map (key_eq kt) (nat len) (\<lambda>r2. readValue kt (zero kt) r2)
                    (\<lambda>r2. readValue vt (zero vt) r2) [] r1 of
               (Inl e, r2) \<Rightarrow> (Inl e, r2)
             | (Inr m, r2) \<Rightarrow> (Inr (VMap (Some m)), r2)))"
| "readValue (TStruct fs) cur r = DeserializeStruct fs cur r"
| "readValue (TPtr et) cur r =
     (case Peek 1 r of
        (Inl e, r1) \<Rightarrow> (Inl e, r1)
      | (Inr b, r1) \<Rightarrow>
          if b ! 0 = NullObject then
            (case ReadByte r1 of
               (Inl e, r2) \<Rightarrow> (Inl e, r2)
             | (Inr _, r2) \<Rightarrow> (Inr (VPtr None), r2))
          else
            (case readValue et (case cur of VPtr (Some x) \<Rightarrow> x | _ \<Rightarrow> zero et) r1 of
               (Inl e, r2) \<Rightarrow> (Inl e, r2)
             | (Inr x, r2) \<Rightarrow> (Inr (VPtr (Some x)), r2)))"
| "readValue (TOther k) cur r = (Inl (UnsupportedType k), r)"
| "DeserializeStruct fs cur r =
     (let fd = getFormatterData fs in
      case ReadObjectHeader r of
        (Inl e, r1) \<Rightarrow> (Inl e, r1)
      | (Inr (fieldCount, isNull), r1) \<Rightarrow>
          if isNull then (Inr cur, r1)
          else if fieldCount \<noteq> int (length fd) then (Inl FieldCountMismatch, r1)
          else
            (case cur of
               VStruct vs \<Rightarrow>
                 (case read_fields (\<lambda>fi vs1 r2.
                         if fi_index fi < length fs \<and> fi_index fi < length vs1 then
                           (if CanSet (fs ! fi_index fi) then
                              (case readValue (f_type (fs ! fi_index fi)) (vs1 ! fi_index fi) r2 of
                                 (Inl e, r3) \<Rightarrow> (Inl e, r3)
                               | (Inr x, r3) \<Rightarrow> (Inr (vs1[fi_index fi := x]), r3))
                            else
                              (case skipValue (fi_kind fi) r2 of
                                 (Some e, r3) \<Rightarrow> (Inl e, r3)
                               | (None, r3) \<Rightarrow> (Inr vs1, r3)))
                         else (Inl (Panic ''reflect: Field index out of range''), r2))
                       fd vs r1 of
                    (Inl e, r2) \<Rightarrow> (Inl e, r2)
                  | (Inr vs1, r2) \<Rightarrow> (Inr (VStruct vs1), r2))
             | _ \<Rightarrow> (Inl kind_mismatch, r1)))"
  by pat_completeness auto
termination
  by (relation "measure (\<lambda>x. case x of Inl (t, v, w) \<Rightarrow> 2 * size t + 1
                              | Inr (fs, v, w) \<Rightarrow> 2 * size (TStruct fs))")
     (auto simp add: size_f_type less_Suc_eq_le dest!: nth_mem[THEN size_f_type])

declare DeserializeStruct.simps [simp del]

text \<open>
  Modelled from the spec: \<open>Deserialize\<close> calls \<open>deserializeStruct\<close>, which no file of the
  repository defines. The spec makes \<open>Deserialize\<close> the mirror of \<open>Serialize\<close> with the same
  dispatch, and \<open>Serialize\<close> calls \<open>SerializeStruct\<close> at this place; \<open>deserializeStruct\<close> is
  therefore taken to be \<open>DeserializeStruct\<close>.
\<close>

definition deserializeStruct :: "field list \<Rightarrow> val \<Rightarrow> val rd" where
  "deserializeStruct fs cur r = DeserializeStruct fs cur r"

definition Deserialize :: "val rd option \<Rightarrow> byte list \<Rightarrow> ty \<Rightarrow> val \<Rightarrow> error + val" where
  "Deserialize formatter data t v =
     (let reader = NewReader data in
      case formatter of
        Some fmt \<Rightarrow>
          (case fmt reader of
             (Inl e, r1) \<Rightarrow> Inl (DeserializeFailed e)
           | (Inr x, r1) \<Rightarrow> Inr x)
      | None \<Rightarrow>
          (case t of
             TPtr et \<Rightarrow>
               (case v of
                  VPtr (Some cur) \<Rightarrow>
                    (case et of
                       TStruct fs \<Rightarrow> fst (deserializeStruct fs cur reader)
                     | _ \<Rightarrow> fst (readValue et cur reader))
                | VPtr None \<Rightarrow> Inl (UnsupportedType KInvalid)
                | _ \<Rightarrow> Inl kind_mismatch)
           | _ \<Rightarrow> Inl DeserializeRequiresPointer))"

section \<open>Wire layout and supported values\<close>

text \<open>
  The following functions are not code of the repository; they state what the claims need.
  \<open>wire t v\<close> is the byte sequence \<open>writeValue\<close> appends for a value \<open>v\<close> of type \<open>t\<close>
  (lemma \<open>writeValue_wire\<close>). \<open>height t v\<close> is the number of nested \<open>writeValue\<close> calls the
  value needs and \<open>nesting t v\<close> the number \<open>Serialize\<close> makes, which writes a top-level
  struct, or the struct a top-level pointer refers to, without a \<open>writeValue\<close> of its own.
  \<open>wf_val t v\<close> are the values the claims are about: \<open>v\<close> has type \<open>t\<close>, every kind is one
  the walker supports, every length fits an \<open>int32\<close>, a struct has at most 249 serialised
  fields, and the encoding of what a pointer refers to is the single byte \<open>0xFF\<close> or does not
  begin with that null marker. \<open>canon t v\<close> is \<open>v\<close> as it can come back: every \<open>float32\<close> NaN
  quiet, every field that is not serialised zero, a pointer nil when it refers to a value
  encoded as the single byte \<open>0xFF\<close>, and the entries of a map inserted one by one.
\<close>

definition serialised :: "field \<Rightarrow> bool" where
  "serialised f = (f_pkgpath f = [] \<and> f_tag f \<noteq> ''-'')"

fun wire :: "ty \<Rightarrow> val \<Rightarrow> byte list" where
  "wire TBool v = (case v of VBool b \<Rightarrow> [if b then 1 else 0] | _ \<Rightarrow> [])"
| "wire TInt8 v = (case v of VInt8 x \<Rightarrow> [x] | _ \<Rightarrow> [])"
| "wire TInt16 v = (case v of VInt16 x \<Rightarrow> put16 x | _ \<Rightarrow> [])"
| "wire TInt32 v = (case v of VInt32 x \<Rightarrow> put32 x | _ \<Rightarrow> [])"
| "wire TInt v = (case v of VInt64 x \<Rightarrow> put64 x | _ \<Rightarrow> [])"
| "wire TInt64 v = (case v of VInt64 x \<Rightarrow> put64 x | _ \<Rightarrow> [])"
| "wire TFloat32 v = (case v of VFloat32 x \<Rightarrow> put32 (via_float64 x) | _ \<Rightarrow> [])"
| "wire TFloat64 v = (case v of VFloat64 x \<Rightarrow> put64 x | _ \<Rightarrow> [])"
| "wire TString v =
     (case v of
        VString s \<Rightarrow>
          (if s = [] then put32 0
           else put32 (NOT (word_of_nat (length s))) @ put32 (word_of_nat (length s)) @ s)
      | _ \<Rightarrow> [])"
| "wire (TSlice et) v =
     (case v of
        VBytes None \<Rightarrow> put32 NullCollection
      | VBytes (Some bs) \<Rightarrow> put32 (word_of_nat (length bs)) @ bs
      | VSlice None \<Rightarrow> put32 NullCollection
      | VSlice (Some vs) \<Rightarrow> put32 (word_of_nat (length vs)) @ concat (map (wire et) vs)
      | _ \<Rightarrow> [])"
| "wire (TArray n et) v =
     (case v of
        VArray vs \<Rightarrow> put32 (word_of_nat (length vs)) @ concat (map (wire et) vs)
      | _ \<Rightarrow> [])"
| "wire (TMap kt vt) v =
     (case v of
        VMap None \<Rightarrow> put32 NullCollection
      | VMap (Some kvs) \<Rightarrow>
          put32 (word_of_nat (length kvs)) @ concat (map (\<lambda>kv. wire kt (fst kv) @ wire vt (snd kv)) kvs)
      | _ \<Rightarrow> [])"
| "wire (TStruct fs) v =
     (case v of
        VStruct vs \<Rightarrow>
          word_of_nat (length (getFormatterData fs))
          # concat (map (\<lambda>fi. if fi_index fi < length fs
                                then wire (f_type (fs ! fi_index fi)) (vs ! fi_index fi) else [])
                        (getFormatterData fs))
      | _ \<Rightarrow> [])"
| "wire (TPtr et) v =
     (case v of VPtr None \<Rightarrow> [NullObject] | VPtr (Some x) \<Rightarrow> wire et x | _ \<Rightarrow> [])"
| "wire (TOther k) v = []"

fun max_list :: "nat list \<Rightarrow> nat" where
  "max_list [] = 0"
| "max_list (x # xs) = max x (max_list xs)"

fun height :: "ty \<Rightarrow> val \<Rightarrow> nat" where
  "height (TSlice et) v =
     (case v of VSlice (Some vs) \<Rightarrow> Suc (max_list (map (height et) vs)) | _ \<Rightarrow> 1)"
| "height (TArray n et) v =
     (case v of VArray vs \<Rightarrow> Suc (max_list (map (height et) vs)) | _ \<Rightarrow> 1)"
| "height (TMap kt vt) v =
     (case v of
        VMap (Some kvs) \<Rightarrow>
          Suc (max_list (map (\<lambda>kv. max (height kt (fst kv)) (height vt (snd kv))) kvs))
      | _ \<Rightarrow> 1)"
| "height (TStruct fs) v =
     (case v of
        VStruct vs \<Rightarrow>
          Suc (max_list (map (\<lambda>fi. if fi_index fi < length fs
                                     then height (f_type (fs ! fi_index fi)) (vs ! fi_index fi) else 0)
                             (getFormatterData fs)))
      | _ \<Rightarrow> 1)"
| "height (TPtr et) v = (case v of VPtr (Some x) \<Rightarrow> Suc (height et x) | _ \<Rightarrow> 1)"
| "height _ v = 1"

fun wf_val :: "ty \<Rightarrow> val \<Rightarrow> bool" where
  "wf_val TBool v = (case v of VBool _ \<Rightarrow> True | _ \<Rightarrow> False)"
| "wf_val TInt8 v = (case v of VInt8 _ \<Rightarrow> True | _ \<Rightarrow> False)"
| "wf_val TInt16 v = (case v of VInt16 _ \<Rightarrow> True | _ \<Rightarrow> False)"
| "wf_val TInt32 v = (case v of VInt32 _ \<Rightarrow> True | _ \<Rightarrow> False)"
| "wf_val TInt v = (case v of VInt64 _ \<Rightarrow> True | _ \<Rightarrow> False)"
| "wf_val TInt64 v = (case v of VInt64 _ \<Rightarrow> True | _ \<Rightarrow> False)"
| "wf_val TFloat32 v = (case v of VFloat32 _ \<Rightarrow> True | _ \<Rightarrow> False)"
| "wf_val TFloat64 v = (case v of VFloat64 _ \<Rightarrow> True | _ \<Rightarrow> False)"
| "wf_val TString v = (case v of VString s \<Rightarrow> length s < 2 ^ 31 | _ \<Rightarrow> False)"
| "wf_val (TSlice et) v =
     (case v of
        VBytes None \<Rightarrow> kind_of et = KUint8
      | VBytes (Some bs) \<Rightarrow> kind_of et = KUint8 \<and> length bs < 2 ^ 31
      | VSlice None \<Rightarrow> kind_of et \<noteq> KUint8
      | VSlice (Some vs) \<Rightarrow> kind_of et \<noteq> KUint8 \<and> length vs < 2 ^ 31 \<and> list_all (wf_val et) vs
      | _ \<Rightarrow> False)"
| "wf_val (TArray n et) v =
     (case v of
        VArray vs \<Rightarrow> length vs = n \<and> n < 2 ^ 31 \<and> list_all (wf_val et) vs
      | _ \<Rightarrow> False)"
| "wf_val (TMap kt vt) v =
     (case v of
        VMap None \<Rightarrow> True
      | VMap (Some kvs) \<Rightarrow>
          length kvs < 2 ^ 31
          \<and> list_all (\<lambda>kv. wf_val kt (fst kv) \<and> wf_val vt (snd kv)) kvs
      | _ \<Rightarrow> False)"
| "wf_val (TStruct fs) v =
     (case v of
        VStruct vs \<Rightarrow>
          length vs = length fs \<and> length (getFormatterData fs) \<le> 249
          \<and> list_all (\<lambda>i. if serialised (fs ! i) then wf_val (f_type (fs ! i)) (vs ! i) else True)
                [0..<length fs]
      | _ \<Rightarrow> False)"
| "wf_val (TPtr et) v =
     (case v of
        VPtr None \<Rightarrow> True
      | VPtr (Some x) \<Rightarrow>
          wf_val et x \<and> (wire et x = [NullObject] \<or> take 1 (wire et x) \<noteq> [NullObject])
      | _ \<Rightarrow> False)"
| "wf_val (TOther k) v = False"

fun canon :: "ty \<Rightarrow> val \<Rightarrow> val" where
  "canon TFloat32 v = (case v of VFloat32 x \<Rightarrow> VFloat32 (via_float64 x) | _ \<Rightarrow> v)"
| "canon (TSlice et) v =
     (case v of VSlice (Some vs) \<Rightarrow> VSlice (Some (map (canon et) vs)) | _ \<Rightarrow> v)"
| "canon (TArray n et) v = (case v of VArray vs \<Rightarrow> VArray (map (canon et) vs) | _ \<Rightarrow> v)"
| "canon (TMap kt vt) v =
     (case v of
        VMap (Some kvs) \<Rightarrow>
          VMap (Some (foldl (\<lambda>m kv. SetMapIndex (key_eq kt) (canon kt (fst kv)) (canon vt (snd kv)) m)
                        [] kvs))
      | _ \<Rightarrow> v)"
| "canon (TStruct fs) v =
     (case v of
        VStruct vs \<Rightarrow>
          VStruct (map (\<lambda>i. if serialised (fs ! i) then canon (f_type (fs ! i)) (vs ! i)
                             else zero (f_type (fs ! i))) [0..<length fs])
      | _ \<Rightarrow> v)"
| "canon (TPtr et) v =
     (case v of
        VPtr (Some x) \<Rightarrow> (if wire et x = [NullObject] then VPtr None else VPtr (Some (canon et x)))
      | _ \<Rightarrow> v)"
| "canon _ v = v"

definition nesting :: "ty \<Rightarrow> val \<Rightarrow> nat" where
  "nesting t v =
     (if kind_of t = KPtr \<and> v = VPtr None then 0
      else
        (case (if kind_of t = KPtr then Elem (t, v) else (t, v)) of
           (t1, v1) \<Rightarrow> if kind_of t1 = KStruct then height t1 v1 - 1 else height t1 v1))"

(*LEMMAS*)
section \<open>Properties of the sort\<close>

text \<open>Every step of the sort is a \<open>Swap\<close>, so the result is a permutation of the input.\<close>

lemma mset_Swap [simp]: "mset (Swap i j xs) = mset xs"
  by (simp add: Swap_def mset_swap nat_less_iff)

lemma length_Swap [simp]: "length (Swap i j xs) = length xs"
  by (simp add: Swap_def)

lemma mset_insertionSort_inner [simp]: "mset (insertionSort_inner lt a j xs) = mset xs"
  by (induction lt a j xs rule: insertionSort_inner.induct)
     (subst insertionSort_inner.simps, simp)

lemma mset_insertionSort_outer [simp]: "mset (insertionSort_outer lt a b i xs) = mset xs"
  by (induction lt a b i xs rule: insertionSort_outer.induct)
     (subst insertionSort_outer.simps, simp)

lemma mset_insertionSort_func [simp]: "mset (insertionSort_func lt xs a b) = mset xs"
  by (simp add: insertionSort_func_def)

lemma mset_siftDown_func [simp]: "mset (siftDown_func lt root hi first xs) = mset xs"
  by (induction lt root hi first xs rule: siftDown_func.induct)
     (subst siftDown_func.simps, simp add: Let_def)

lemma mset_heapSort_build [simp]: "mset (heapSort_build lt i hi first xs) = mset xs"
  by (induction i arbitrary: xs) simp_all

lemma mset_heapSort_pop [simp]: "mset (heapSort_pop lt i first xs) = mset xs"
  by (induction i arbitrary: xs) simp_all

lemma mset_heapSort_func [simp]: "mset (heapSort_func lt xs a b) = mset xs"
  by (simp add: heapSort_func_def Let_def)

lemma mset_partition_loop [simp]: "mset (fst (partition_loop lt a i j xs)) = mset xs"
  by (induction lt a i j xs rule: partition_loop.induct)
     (subst partition_loop.simps, simp add: Let_def)

lemma mset_partition_func [simp]: "mset (fst (partition_func lt xs a b pivot)) = mset xs"
  by (simp add: partition_func_def Let_def split: prod.splits)
     (metis fst_conv mset_Swap mset_partition_loop)

lemma mset_partitionEqual_loop [simp]: "mset (fst (partitionEqual_loop lt a i j xs)) = mset xs"
  by (induction lt a i j xs rule: partitionEqual_loop.induct)
     (subst partitionEqual_loop.simps, simp add: Let_def)

lemma mset_partitionEqual_func [simp]: "mset (fst (partitionEqual_func lt xs a b pivot)) = mset xs"
  by (simp add: partitionEqual_func_def)

lemma mset_shift_left [simp]: "mset (shift_left lt j xs) = mset xs"
  by (induction lt j xs rule: shift_left.induct) (subst shift_left.simps, simp)

lemma mset_shift_right [simp]: "mset (shift_right lt j b xs) = mset xs"
  by (induction lt j b xs rule: shift_right.induct) (subst shift_right.simps, simp)

lemma mset_partialInsertionSort_steps [simp]:
  "mset (fst (partialInsertionSort_steps n lt a b i xs)) = mset xs"
  by (induction n arbitrary: i xs) (simp_all add: Let_def)

lemma mset_partialInsertionSort_func [simp]:
  "mset (fst (partialInsertionSort_func lt xs a b)) = mset xs"
  by (simp add: partialInsertionSort_func_def)

lemma mset_breakPatterns_loop [simp]:
  "mset (breakPatterns_loop is random modulus n idx a xs) = mset xs"
  by (induction "is" arbitrary: random xs) (simp_all add: Let_def)

lemma mset_breakPatterns_func [simp]: "mset (breakPatterns_func xs a b) = mset xs"
  by (simp add: breakPatterns_func_def Let_def)

lemma mset_reverseRange_loop [simp]: "mset (reverseRange_loop i j xs) = mset xs"
  by (induction i j xs rule: reverseRange_loop.induct) (subst reverseRange_loop.simps, simp)

lemma mset_reverseRange_func [simp]: "mset (reverseRange_func xs a b) = mset xs"
  by (simp add: reverseRange_func_def)

lemma mset_pdqsort_loop [simp]: "mset (pdqsort_loop lt a b limit wb wp xs) = mset xs"
proof (induction lt a b limit wb wp xs rule: pdqsort_loop.induct)
  case (1 lt a b limit wb wp xs)
  define n where "n = b - a"
  define xs1 where "xs1 = (if \<not> wb then breakPatterns_func xs a b else xs)"
  define limit1 where "limit1 = (if \<not> wb then limit - 1 else limit)"
  define ph where "ph = choosePivot_func lt xs1 a b"
  define xs2 where "xs2 = (if snd ph = decreasingHint then reverseRange_func xs1 a b else xs1)"
  define pivot where "pivot = (if snd ph = decreasingHint then b - 1 - (fst ph - a) else fst ph)"
  define hint where "hint = (if snd ph = decreasingHint then increasingHint else snd ph)"
  define ps where "ps = (if wb \<and> wp \<and> hint = increasingHint
                   then partialInsertionSort_func lt xs2 a b else (xs2, False))"
  define xs3 where "xs3 = fst ps"
  define pe where "pe = partitionEqual_func lt xs3 a b pivot"
  define pr where "pr = partition_func lt xs3 a b pivot"
  define xs4 where "xs4 = fst pr"
  define mid where "mid = fst (snd pr)"
  define ap where "ap = snd (snd pr)"
  define leftLen where "leftLen = mid - a"
  define rightLen where "rightLen = b - mid"
  define bt where "bt = n div 8"
  note defs = n_def xs1_def limit1_def ph_def xs2_def pivot_def hint_def ps_def xs3_def pe_def
    pr_def xs4_def mid_def ap_def leftLen_def rightLen_def bt_def
  have unf: "pdqsort_loop lt a b limit wb wp xs =
     (if n \<le> 12 then insertionSort_func lt xs a b
      else if limit = 0 then heapSort_func lt xs a b
      else if snd ps then xs3
      else if a > 0 \<and> \<not> Less lt xs3 (a - 1) pivot then
        pdqsort_loop lt (snd pe) b limit1 wb wp (fst pe)
      else if leftLen < rightLen then
        pdqsort_loop lt (mid + 1) b limit1 (leftLen \<ge> bt) ap (pdqsort_loop lt a mid limit1 True True xs4)
      else
        pdqsort_loop lt a mid limit1 (rightLen \<ge> bt) ap (pdqsort_loop lt (mid + 1) b limit1 True True xs4))"
    unfolding defs by (subst pdqsort_loop.simps) (simp only: Let_def)
  have m3: "mset xs3 = mset xs"
    unfolding xs3_def ps_def xs2_def xs1_def by simp
  have m4: "mset xs4 = mset xs" unfolding xs4_def pr_def using m3 by simp
  have mpe: "mset (fst pe) = mset xs" unfolding pe_def using m3 by simp
  show ?case
  proof (cases "n \<le> 12")
    case True
    then show ?thesis by (subst unf) simp
  next
    case n12: False
    show ?thesis
    proof (cases "limit = 0")
      case True
      with n12 show ?thesis by (subst unf) simp
    next
      case l0: False
      show ?thesis
      proof (cases "snd ps")
        case True
        with n12 l0 m3 show ?thesis by (subst unf) simp
      next
        case sp: False
        show ?thesis
        proof (cases "a > 0 \<and> \<not> Less lt xs3 (a - 1) pivot")
          case True
          have "mset (pdqsort_loop lt (snd pe) b limit1 wb wp (fst pe)) = mset (fst pe)"
            using "1.IH"(1)[OF n_def n12 l0 xs1_def limit1_def ph_def xs2_def pivot_def hint_def ps_def
                xs3_def sp True pe_def] .
          with n12 l0 sp True mpe show ?thesis by (subst unf) simp
        next
          case pq: False
          show ?thesis
          proof (cases "leftLen < rightLen")
            case True
            have a1: "mset (pdqsort_loop lt a mid limit1 True True xs4) = mset xs4"
              using "1.IH"(2)[OF n_def n12 l0 xs1_def limit1_def ph_def xs2_def pivot_def hint_def ps_def
                xs3_def sp pq pr_def xs4_def mid_def ap_def leftLen_def rightLen_def bt_def True] .
            have a2: "mset (pdqsort_loop lt (mid + 1) b limit1 (leftLen \<ge> bt) ap
                        (pdqsort_loop lt a mid limit1 True True xs4))
                      = mset (pdqsort_loop lt a mid limit1 True True xs4)"
              using "1.IH"(3)[OF n_def n12 l0 xs1_def limit1_def ph_def xs2_def pivot_def hint_def ps_def
                xs3_def sp pq pr_def xs4_def mid_def ap_def leftLen_def rightLen_def bt_def True] .
            from n12 l0 sp pq True a1 a2 m4 show ?thesis by (subst unf) auto
          next
            case False
            have a1: "mset (pdqsort_loop lt (mid + 1) b limit1 True True xs4) = mset xs4"
              using "1.IH"(4)[OF n_def n12 l0 xs1_def limit1_def ph_def xs2_def pivot_def hint_def ps_def
                xs3_def sp pq pr_def xs4_def mid_def ap_def leftLen_def rightLen_def bt_def False] .
            have a2: "mset (pdqsort_loop lt a mid limit1 (rightLen \<ge> bt) ap
                        (pdqsort_loop lt (mid + 1) b limit1 True True xs4))
                      = mset (pdqsort_loop lt (mid + 1) b limit1 True True xs4)"
              using "1.IH"(5)[OF n_def n12 l0 xs1_def limit1_def ph_def xs2_def pivot_def hint_def ps_def
                xs3_def sp pq pr_def xs4_def mid_def ap_def leftLen_def rightLen_def bt_def False] .
            from n12 l0 sp pq False a1 a2 m4 show ?thesis by (subst unf) auto
          qed
        qed
      qed
    qed
  qed
qed

lemma mset_sortSlice: "mset (sortSlice lt xs) = mset xs"
  by (simp add: sortSlice_def pdqsort_func_def)

text \<open>
  Slices of at most 12 elements are sorted by \<open>insertionSort_func\<close> alone, which moves every
  element to the left past the strictly greater ones only: it is the stable sort.
\<close>

fun insert_left :: "('a \<Rightarrow> 'b::linorder) \<Rightarrow> 'a \<Rightarrow> 'a list \<Rightarrow> 'a list" where
  "insert_left f x [] = [x]"
| "insert_left f x (r # rs) = (if f x < f r then r # insert_left f x rs else x # r # rs)"

definition insert_right :: "('a \<Rightarrow> 'b::linorder) \<Rightarrow> 'a \<Rightarrow> 'a list \<Rightarrow> 'a list" where
  "insert_right f x ys = rev (insert_left f x (rev ys))"

lemma insert_right_Nil [simp]: "insert_right f x [] = [x]"
  by (simp add: insert_right_def)

lemma insert_right_snoc:
  "insert_right f x (ys @ [y]) = (if f x < f y then insert_right f x ys @ [y] else ys @ [y, x])"
  by (simp add: insert_right_def)

lemma length_insert_right [simp]: "length (insert_right f x ys) = Suc (length ys)"
  by (induction ys rule: rev_induct) (simp_all add: insert_right_snoc)

lemma insertionSort_inner_insert:
  "j = int (length ys) \<Longrightarrow>
   insertionSort_inner (\<lambda>x y. f x < f y) 0 j (ys @ x # rest) = insert_right f x ys @ rest"
proof (induction ys arbitrary: j rest rule: rev_induct)
  case Nil
  then show ?case by (subst insertionSort_inner.simps) simp
next
  case (snoc y ys)
  have j: "j = int (length ys) + 1" using snoc.prems by simp
  have at_j: "(ys @ [y] @ x # rest) ! nat j = x"
    using j by (simp add: nth_append nat_add_distrib)
  have at_j1: "(ys @ [y] @ x # rest) ! nat (j - 1) = y"
    using j by (simp add: nth_append)
  show ?case
  proof (cases "f x < f y")
    case True
    have sw: "Swap j (j - 1) (ys @ [y] @ x # rest) = ys @ x # (y # rest)"
      using j by (simp add: Swap_def nth_append list_update_append nat_add_distrib)
    have "insertionSort_inner (\<lambda>x y. f x < f y) 0 j ((ys @ [y]) @ x # rest)
          = insertionSort_inner (\<lambda>x y. f x < f y) 0 (j - 1) (ys @ x # (y # rest))"
      using True j at_j at_j1 sw by (subst insertionSort_inner.simps) (simp add: Less_def)
    also have "\<dots> = insert_right f x ys @ (y # rest)"
      using snoc.IH[of "j - 1" "y # rest"] j by simp
    finally show ?thesis using True by (simp add: insert_right_snoc)
  next
    case False
    then show ?thesis
      using j at_j at_j1 by (subst insertionSort_inner.simps) (simp add: Less_def insert_right_snoc)
  qed
qed

lemma insertionSort_outer_foldl:
  "i = int (length ps) \<Longrightarrow> b = int (length ps + length ss) \<Longrightarrow>
   insertionSort_outer (\<lambda>x y. f x < f y) 0 b i (ps @ ss)
     = foldl (\<lambda>p x. insert_right f x p) ps ss"
proof (induction ss arbitrary: i ps)
  case Nil
  then show ?case by (subst insertionSort_outer.simps) simp
next
  case (Cons x ss)
  have "insertionSort_outer (\<lambda>x y. f x < f y) 0 b i (ps @ x # ss)
        = insertionSort_outer (\<lambda>x y. f x < f y) 0 b (i + 1) (insert_right f x ps @ ss)"
    using Cons.prems insertionSort_inner_insert[of i ps f x ss]
    by (subst insertionSort_outer.simps) simp
  also have "\<dots> = foldl (\<lambda>p x. insert_right f x p) (insert_right f x ps) ss"
    using Cons.IH[of "i + 1" "insert_right f x ps"] Cons.prems by simp
  finally show ?case by simp
qed

lemma insertionSort_func_foldl:
  "insertionSort_func (\<lambda>x y. f x < f y) xs 0 (int (length xs))
     = foldl (\<lambda>p x. insert_right f x p) [] xs"
proof (cases xs)
  case Nil
  then show ?thesis
    by (simp add: insertionSort_func_def) (subst insertionSort_outer.simps, simp)
next
  case (Cons x ss)
  then show ?thesis
    using insertionSort_outer_foldl[of 1 "[x]" "int (length xs)" ss f]
    by (simp add: insertionSort_func_def)
qed

lemma mset_insert_right [simp]: "mset (insert_right f x ys) = add_mset x (mset ys)"
  by (induction ys rule: rev_induct) (simp_all add: insert_right_snoc)

lemma set_insert_right [simp]: "set (insert_right f x ys) = insert x (set ys)"
  by (induction ys rule: rev_induct) (auto simp add: insert_right_snoc)

lemma sorted_insert_right:
  "sorted (map f ys) \<Longrightarrow> sorted (map f (insert_right f x ys))"
proof (induction ys rule: rev_induct)
  case Nil
  then show ?case by simp
next
  case (snoc y ys)
  then show ?case
    by (auto simp add: insert_right_snoc sorted_append)
qed

lemma filter_insert_right:
  "filter (\<lambda>y. k = f y) (insert_right f x ys) = filter (\<lambda>y. k = f y) (ys @ [x])"
  by (induction ys rule: rev_induct) (auto simp add: insert_right_snoc)

lemma foldl_insert_right_props:
  "sorted (map f ps) \<Longrightarrow>
   mset (foldl (\<lambda>p x. insert_right f x p) ps ss) = mset (ps @ ss)
   \<and> sorted (map f (foldl (\<lambda>p x. insert_right f x p) ps ss))
   \<and> filter (\<lambda>y. k = f y) (foldl (\<lambda>p x. insert_right f x p) ps ss) = filter (\<lambda>y. k = f y) (ps @ ss)"
proof (induction ss arbitrary: ps)
  case Nil
  then show ?case by simp
next
  case (Cons x ss)
  from Cons.IH[OF sorted_insert_right[OF Cons.prems, of x]]
  show ?case by (simp add: filter_insert_right)
qed

lemma foldl_insert_right_sort_key:
  "foldl (\<lambda>p x. insert_right f x p) [] xs = sort_key f xs"
proof (rule sym, rule properties_for_sort_key)
  show "mset (foldl (\<lambda>p x. insert_right f x p) [] xs) = mset xs"
    using foldl_insert_right_props[of f "[]" xs] by simp
  show "sorted (map f (foldl (\<lambda>p x. insert_right f x p) [] xs))"
    using foldl_insert_right_props[of f "[]" xs] by simp
  fix k
  show "filter (\<lambda>x. f k = f x) (foldl (\<lambda>p x. insert_right f x p) [] xs) = filter (\<lambda>x. f k = f x) xs"
    using foldl_insert_right_props[of f "[]" xs "f k"] by simp
qed

lemma sortSlice_short:
  "length xs \<le> 12 \<Longrightarrow> sortSlice (\<lambda>x y. f x < f y) xs = sort_key f xs"
  unfolding sortSlice_def pdqsort_func_def
  by (subst pdqsort_loop.simps) (simp add: Let_def insertionSort_func_foldl foldl_insert_right_sort_key)

section \<open>The writer appends\<close>

definition wfw :: "Writer \<Rightarrow> bool" where
  "wfw w = (w_pos w \<le> length (w_buffer w))"

definition appends :: "Writer \<Rightarrow> Writer \<Rightarrow> byte list \<Rightarrow> bool" where
  "appends w w' bs = (wfw w' \<and> GetBytes w' = GetBytes w @ bs \<and> w_depth w' = w_depth w
     \<and> w_trace w' = w_trace w)"

lemma appends_trans: "appends w w1 a \<Longrightarrow> appends w1 w2 b \<Longrightarrow> appends w w2 (a @ b)"
  by (simp add: appends_def)

lemma ensureCapacity_props:
  "wfw w \<Longrightarrow> wfw (ensureCapacity n w) \<and> GetBytes (ensureCapacity n w) = GetBytes w
    \<and> w_pos (ensureCapacity n w) = w_pos w \<and> w_pos w + n \<le> length (w_buffer (ensureCapacity n w))
    \<and> w_depth (ensureCapacity n w) = w_depth w \<and> w_trace (ensureCapacity n w) = w_trace w"
  by (auto simp add: wfw_def ensureCapacity_def GetBytes_def Let_def)

lemma copy_at_take:
  "at + length src \<le> length dst \<Longrightarrow> take (at + length src) (copy_at dst at src) = take at dst @ src"
  by (simp add: copy_at_def)

lemma length_copy_at: "at + length src \<le> length dst \<Longrightarrow> length (copy_at dst at src) = length dst"
  by (simp add: copy_at_def)

lemma store_appends:
  assumes "wfw w" and "w1 = ensureCapacity (length bs) w"
  shows "appends w (w1\<lparr>w_buffer := copy_at (w_buffer w1) (w_pos w1) bs, w_pos := w_pos w1 + length bs\<rparr>) bs"
  using ensureCapacity_props[OF assms(1), of "length bs"] assms(2)
    copy_at_take[of "w_pos w" bs "w_buffer w1"] length_copy_at[of "w_pos w" bs "w_buffer w1"]
  by (auto simp add: appends_def wfw_def GetBytes_def)

lemma WriteByte_appends: "wfw w \<Longrightarrow> appends w (WriteByte b w) [b]"
  using ensureCapacity_props[of w 1]
  by (auto simp add: appends_def WriteByte_def Let_def wfw_def GetBytes_def take_Suc_conv_app_nth)

lemma WriteInt16_appends: "wfw w \<Longrightarrow> appends w (WriteInt16 v w) (put16 v)"
  using store_appends[of w "ensureCapacity 2 w" "put16 v"] by (simp add: WriteInt16_def Let_def)

lemma WriteInt32_appends: "wfw w \<Longrightarrow> appends w (WriteInt32 v w) (put32 v)"
  using store_appends[of w "ensureCapacity 4 w" "put32 v"] by (simp add: WriteInt32_def Let_def)

lemma WriteInt64_appends: "wfw w \<Longrightarrow> appends w (WriteInt64 v w) (put64 v)"
  using store_appends[of w "ensureCapacity 8 w" "put64 v"] by (simp add: WriteInt64_def Let_def)

lemma WriteFloat32_appends: "wfw w \<Longrightarrow> appends w (WriteFloat32 v w) (put32 v)"
  using store_appends[of w "ensureCapacity 4 w" "put32 v"] by (simp add: WriteFloat32_def Let_def)

lemma WriteFloat64_appends: "wfw w \<Longrightarrow> appends w (WriteFloat64 v w) (put64 v)"
  using store_appends[of w "ensureCapacity 8 w" "put64 v"] by (simp add: WriteFloat64_def Let_def)

lemma WriteBool_appends: "wfw w \<Longrightarrow> appends w (WriteBool b w) [if b then 1 else 0]"
  by (simp add: WriteBool_def WriteByte_appends)

lemma WriteCollectionHeader_appends:
  "wfw w \<Longrightarrow> appends w (WriteCollectionHeader n w) (put32 (word_of_nat n))"
  by (simp add: WriteCollectionHeader_def WriteInt32_appends)

lemma WriteNullCollectionHeader_appends:
  "wfw w \<Longrightarrow> appends w (WriteNullCollectionHeader w) (put32 NullCollection)"
  by (simp add: WriteNullCollectionHeader_def WriteInt32_appends)

lemma WriteBytes_appends:
  assumes "wfw w"
  shows "appends w (WriteBytes v w)
           (case v of None \<Rightarrow> put32 NullCollection | Some bs \<Rightarrow> put32 (word_of_nat (length bs)) @ bs)"
proof (cases v)
  case None
  then show ?thesis using assms by (simp add: WriteBytes_def WriteInt32_appends)
next
  case (Some bs)
  have a1: "appends w (WriteInt32 (word_of_nat (length bs)) w) (put32 (word_of_nat (length bs)))"
    using assms by (rule WriteInt32_appends)
  show ?thesis
  proof (cases "bs = []")
    case True
    with Some a1 show ?thesis by (simp add: WriteBytes_def)
  next
    case False
    define w1 where "w1 = WriteInt32 (word_of_nat (length bs)) w"
    have "wfw w1" using a1 by (simp add: appends_def w1_def)
    from store_appends[OF this refl, of bs] a1
    show ?thesis using Some False
      by (simp add: WriteBytes_def Let_def w1_def[symmetric] appends_def)
  qed
qed

lemma WriteString_appends:
  assumes wf: "wfw w"
  shows "appends w (WriteString s w)
           (if s = [] then put32 0
            else put32 (NOT (word_of_nat (length s))) @ put32 (word_of_nat (length s)) @ s)"
proof (cases "s = []")
  case True
  then show ?thesis using WriteInt32_appends[OF wf, of 0] by (simp add: WriteString_def)
next
  case False
  define w1 where "w1 = ensureCapacity (length s + 8) w"
  define w2 where "w2 = WriteInt32 (NOT (word_of_nat (length s))) w1"
  define w3 where "w3 = WriteInt32 (word_of_nat (length s)) w2"
  have p1: "wfw w1" "GetBytes w1 = GetBytes w" "w_pos w1 = w_pos w"
      "w_pos w + (length s + 8) \<le> length (w_buffer w1)" "w_depth w1 = w_depth w" "w_trace w1 = w_trace w"
    using ensureCapacity_props[OF wf, of "length s + 8"] by (simp_all add: w1_def)
  have cap_keep: "\<And>n v. w_pos v + n \<le> length (w_buffer v) \<Longrightarrow> ensureCapacity n v = v"
    by (simp add: ensureCapacity_def)
  have p2: "appends w1 w2 (put32 (NOT (word_of_nat (length s))))"
    unfolding w2_def using p1(1) by (rule WriteInt32_appends)
  have b2: "w_pos w2 = w_pos w + 4" "length (w_buffer w2) = length (w_buffer w1)"
    using p1 cap_keep[of w1 4] by (simp_all add: w2_def WriteInt32_def Let_def length_copy_at)
  have p3: "appends w2 w3 (put32 (word_of_nat (length s)))"
    unfolding w3_def using p2 by (intro WriteInt32_appends) (simp add: appends_def)
  have b3: "w_pos w3 = w_pos w + 8" "length (w_buffer w3) = length (w_buffer w1)"
    using p1 b2 cap_keep[of w2 4] by (simp_all add: w3_def WriteInt32_def Let_def length_copy_at)
  have ws: "WriteString s w = w3\<lparr>w_buffer := copy_at (w_buffer w3) (w_pos w3) s, w_pos := w_pos w3 + length s\<rparr>"
    using False by (simp add: WriteString_def Let_def w1_def w2_def w3_def)
  have fit: "w_pos w3 + length s \<le> length (w_buffer w3)" using b3 p1 by simp
  have "take (w_pos w3 + length s) (copy_at (w_buffer w3) (w_pos w3) s) = take (w_pos w3) (w_buffer w3) @ s"
    using copy_at_take[OF fit] .
  then show ?thesis
    using False p1 p2 p3 fit by (simp add: ws GetBytes_def wfw_def length_copy_at appends_def)
qed

lemma WriteObjectHeader_appends:
  "wfw w \<Longrightarrow> 0 \<le> n \<Longrightarrow> n \<le> 249 \<Longrightarrow>
   fst (WriteObjectHeader n w) = None \<and> appends w (snd (WriteObjectHeader n w)) [word_of_int n]"
  by (simp add: WriteObjectHeader_def WriteByte_appends)

lemma wfw_NewWriter: "wfw (NewWriter n)" "GetBytes (NewWriter n) = []" "w_depth (NewWriter n) = 0"
  "w_trace (NewWriter n) = []"
  by (simp_all add: wfw_def NewWriter_def GetBytes_def)

definition writes :: "Writer \<Rightarrow> error option \<times> Writer \<Rightarrow> byte list \<Rightarrow> bool" where
  "writes w res bs = (fst res = None \<and> wfw (snd res) \<and> GetBytes (snd res) = GetBytes w @ bs
     \<and> w_depth (snd res) = w_depth w)"

lemma writesI_appends: "appends w w' bs \<Longrightarrow> writes w (None, w') bs"
  by (simp add: writes_def appends_def)

lemma with_depth_writes:
  assumes "wfw w" and "w_depth w + 1 \<le> MaxDepth"
    and "\<And>w1. wfw w1 \<Longrightarrow> GetBytes w1 = GetBytes w \<Longrightarrow> w_depth w1 = w_depth w + 1 \<Longrightarrow> writes w1 (body w1) bs"
  shows "writes w (with_depth w body) bs"
proof -
  define w1 where "w1 = w\<lparr>w_depth := w_depth w + 1, w_trace := w_trace w @ [w_depth w + 1]\<rparr>"
  have c: "CheckDepth w = (None, w1)"
    using assms(2) by (simp add: CheckDepth_def Let_def w1_def)
  have "writes w1 (body w1) bs"
    using assms(1) by (intro assms(3)) (simp_all add: w1_def wfw_def GetBytes_def)
  then show ?thesis
    by (cases "body w1") (simp add: with_depth_def c writes_def EndCheckDepth_def wfw_def GetBytes_def w1_def)
qed

lemma write_all_writes:
  assumes "\<And>x w1. x \<in> set xs \<Longrightarrow> wfw w1 \<Longrightarrow> w_depth w1 = d \<Longrightarrow> writes w1 (f x w1) (g x)"
    and "wfw w" and "w_depth w = d"
  shows "writes w (write_all f xs w) (concat (map g xs))"
  using assms
proof (induction xs arbitrary: w)
  case Nil
  then show ?case by (simp add: writes_def)
next
  case (Cons x xs)
  have s1: "writes w (f x w) (g x)" using Cons.prems by simp
  obtain w1 where fx: "f x w = (None, w1)" using s1 by (cases "f x w") (simp add: writes_def)
  have w1: "wfw w1" "w_depth w1 = d" "GetBytes w1 = GetBytes w @ g x"
    using s1 fx Cons.prems(3) by (simp_all add: writes_def)
  have "writes w1 (write_all f xs w1) (concat (map g xs))"
    using Cons.IH[of w1] Cons.prems(1) w1 by simp
  then show ?case using fx w1 Cons.prems(3) by (simp add: writes_def)
qed

lemma max_list_ge: "x \<in> set xs \<Longrightarrow> x \<le> max_list xs"
  by (induction xs) auto

lemma ty_induct [case_names TBool TInt TInt8 TInt16 TInt32 TInt64 TFloat32 TFloat64 TString
    TSlice TArray TMap TStruct TPtr TOther]:
  assumes "P TBool" "P TInt" "P TInt8" "P TInt16" "P TInt32" "P TInt64" "P TFloat32" "P TFloat64"
    "P TString" "\<And>et. P et \<Longrightarrow> P (TSlice et)" "\<And>n et. P et \<Longrightarrow> P (TArray n et)"
    "\<And>kt vt. P kt \<Longrightarrow> P vt \<Longrightarrow> P (TMap kt vt)"
    "\<And>fs. (\<And>i. i < length fs \<Longrightarrow> P (f_type (fs ! i))) \<Longrightarrow> P (TStruct fs)"
    "\<And>et. P et \<Longrightarrow> P (TPtr et)" "\<And>k. P (TOther k)"
  shows "P t"
proof (induction t rule: ty.induct)
  case (TStruct fs)
  show ?case
  proof (rule assms(13))
    fix i assume "i < length fs"
    then have "fs ! i \<in> set fs" by simp
    moreover have "f_type (fs ! i) \<in> set_fieldT (fs ! i)" by (cases "fs ! i") simp
    ultimately show "P (f_type (fs ! i))" using TStruct by blast
  qed
qed (use assms in auto)

lemma word_of_nat_length_int: "word_of_int (int n) = (word_of_nat n :: 'a::len word)"
  by simp

lemma SerializeStruct_writes_aux:
  assumes IH: "\<And>i v w. i < length fs \<Longrightarrow> wf_val (f_type (fs ! i)) v \<Longrightarrow> wfw w \<Longrightarrow>
                 w_depth w + int (height (f_type (fs ! i)) v) \<le> MaxDepth \<Longrightarrow>
                 writes w (writeValue (f_type (fs ! i)) v w) (wire (f_type (fs ! i)) v)"
    and idx: "\<And>fi. fi \<in> set (getFormatterData fs) \<Longrightarrow> fi_index fi < length fs \<and> serialised (fs ! fi_index fi)"
    and ok: "wf_val (TStruct fs) v" and wf: "wfw w"
    and d: "w_depth w + int (height (TStruct fs) v) \<le> MaxDepth + 1"
  shows "writes w (SerializeStruct fs v w) (wire (TStruct fs) v)"
proof -
  obtain vs where v: "v = VStruct vs" using ok by (cases v) simp_all
  define fd where "fd = getFormatterData fs"
  have len: "length vs = length fs" "length fd \<le> 249"
    and fields: "\<And>i. i < length fs \<Longrightarrow> serialised (fs ! i) \<Longrightarrow> wf_val (f_type (fs ! i)) (vs ! i)"
    using ok by (auto simp add: v fd_def list_all_iff)
  have hd: "fst (WriteObjectHeader (int (length fd)) w) = None"
      "appends w (snd (WriteObjectHeader (int (length fd)) w)) [word_of_nat (length fd)]"
    using WriteObjectHeader_appends[OF wf, of "int (length fd)"] len by simp_all
  define w1 where "w1 = snd (WriteObjectHeader (int (length fd)) w)"
  have woh: "WriteObjectHeader (int (length fd)) w = (None, w1)"
    using hd(1) by (cases "WriteObjectHeader (int (length fd)) w") (simp add: w1_def)
  have w1: "wfw w1" "w_depth w1 = w_depth w" "GetBytes w1 = GetBytes w @ [word_of_nat (length fd)]"
    using hd(2) by (simp_all add: appends_def w1_def)
  define F where "F = (\<lambda>(fi::fieldInfo) w2.
                 (if fi_index fi < length fs \<and> fi_index fi < length vs
                  then writeValue (f_type (fs ! fi_index fi)) (vs ! fi_index fi) w2
                  else (Some (Panic ''reflect: Field index out of range''), w2)))"
  have unf: "SerializeStruct fs v w = write_all F fd w1"
    using woh by (subst SerializeStruct.simps) (simp add: Let_def fd_def[symmetric] v F_def)
  define G where "G = (\<lambda>fi::fieldInfo. if fi_index fi < length fs
                                then wire (f_type (fs ! fi_index fi)) (vs ! fi_index fi) else [])"
  have "writes w1 (write_all F fd w1) (concat (map G fd))"
  proof (rule write_all_writes[where d = "w_depth w"])
    fix fi w2 assume fi: "fi \<in> set fd" and w2: "wfw w2" "w_depth w2 = w_depth w"
    have i: "fi_index fi < length fs" "serialised (fs ! fi_index fi)"
      using idx fi by (simp_all add: fd_def)
    have "height (f_type (fs ! fi_index fi)) (vs ! fi_index fi) \<le>
           max_list (map (\<lambda>fi. if fi_index fi < length fs
                                     then height (f_type (fs ! fi_index fi)) (vs ! fi_index fi) else 0) fd)"
      using fi i by (intro max_list_ge) (auto simp add: image_iff intro!: bexI[of _ fi])
    then have "w_depth w2 + int (height (f_type (fs ! fi_index fi)) (vs ! fi_index fi)) \<le> MaxDepth"
      using d w2 by (simp add: v fd_def)
    then have "writes w2 (writeValue (f_type (fs ! fi_index fi)) (vs ! fi_index fi) w2)
                 (wire (f_type (fs ! fi_index fi)) (vs ! fi_index fi))"
      using IH[OF i(1) fields[OF i] w2(1)] by simp
    then show "writes w2 (F fi w2) (G fi)"
      using i len by (simp add: F_def G_def)
  qed (use w1 in simp_all)
  then show ?thesis
    using w1 by (simp add: unf[unfolded v] v fd_def[symmetric] G_def[symmetric] writes_def)
qed

lemma collect_fields_index:
  "fi \<in> set (collect_fields i fs) \<Longrightarrow>
   i \<le> fi_index fi \<and> fi_index fi < i + length fs \<and> serialised (fs ! (fi_index fi - i))"
proof (induction fs arbitrary: i)
  case Nil
  then show ?case by simp
next
  case (Cons f fs)
  show ?case
  proof (cases "fi \<in> set (collect_fields (i + 1) fs)")
    case True
    from Cons.IH[OF True] have a: "i + 1 \<le> fi_index fi" "fi_index fi < i + 1 + length fs"
      "serialised (fs ! (fi_index fi - (i + 1)))" by simp_all
    from a(1) have "fi_index fi - i = Suc (fi_index fi - (i + 1))" by arith
    with a show ?thesis by simp
  next
    case False
    with Cons.prems have "fi_index fi = i \<and> serialised f"
      by (auto simp add: Let_def serialised_def split: if_splits)
    then show ?thesis by simp
  qed
qed

lemma collect_fields_distinct: "distinct (map fi_index (collect_fields i fs))"
proof (induction fs arbitrary: i)
  case Nil
  then show ?case by simp
next
  case (Cons f fs)
  have "\<And>fi. fi \<in> set (collect_fields (i + 1) fs) \<Longrightarrow> fi_index fi \<noteq> i"
    using collect_fields_index[of _ "i + 1" fs] by fastforce
  then show ?case using Cons.IH[of "i + 1"] by (auto simp add: Let_def)
qed

lemma collect_fields_complete:
  "j < length fs \<Longrightarrow> serialised (fs ! j) \<Longrightarrow> i + j \<in> fi_index ` set (collect_fields i fs)"
proof (induction fs arbitrary: i j)
  case Nil
  then show ?case by simp
next
  case (Cons f fs)
  show ?case
  proof (cases j)
    case 0
    with Cons.prems show ?thesis by (auto simp add: Let_def serialised_def)
  next
    case (Suc j')
    with Cons.prems have "i + 1 + j' \<in> fi_index ` set (collect_fields (i + 1) fs)"
      by (intro Cons.IH) simp_all
    with Suc show ?thesis by (auto simp add: Let_def)
  qed
qed

lemma mset_getFormatterData: "mset (getFormatterData fs) = mset (collect_fields 0 fs)"
  by (simp add: getFormatterData_def createFormatterData_def mset_sortSlice)

lemma set_getFormatterData: "set (getFormatterData fs) = set (collect_fields 0 fs)"
  using mset_getFormatterData[of fs] by (metis set_mset_mset)

lemma getFormatterData_index:
  "fi \<in> set (getFormatterData fs) \<Longrightarrow> fi_index fi < length fs \<and> serialised (fs ! fi_index fi)"
  using collect_fields_index[of fi 0 fs] by (simp add: set_getFormatterData)

lemma getFormatterData_distinct: "distinct (map fi_index (getFormatterData fs))"
proof -
  have "mset (map fi_index (getFormatterData fs)) = mset (map fi_index (collect_fields 0 fs))"
    by (simp add: mset_getFormatterData)
  then show ?thesis
    using collect_fields_distinct[of 0 fs] by (metis mset_eq_imp_distinct_iff)
qed

lemma getFormatterData_complete:
  "j < length fs \<Longrightarrow> serialised (fs ! j) \<Longrightarrow> j \<in> fi_index ` set (getFormatterData fs)"
  using collect_fields_complete[of j fs 0] by (simp add: set_getFormatterData)

lemma getFormatterData_CanSet:
  "fi \<in> set (getFormatterData fs) \<Longrightarrow> CanSet (fs ! fi_index fi)"
  using getFormatterData_index[of fi fs] by (simp add: serialised_def CanSet_def)

lemma max_list_map_le: "x \<in> set xs \<Longrightarrow> f x \<le> max_list (map f xs)"
  by (rule max_list_ge) simp

lemma writeValue_wire_aux:
  "(\<forall>v w. wf_val t v \<longrightarrow> wfw w \<longrightarrow> w_depth w + int (height t v) \<le> MaxDepth \<longrightarrow>
       writes w (writeValue t v w) (wire t v))"
proof (induction t rule: ty_induct)
  case TBool
  show ?case
    using WriteBool_appends[where b = True] WriteBool_appends[where b = False]
    by (auto simp add: writesI_appends split: val.splits intro!: with_depth_writes)
next
  case TInt
  show ?case
    by (auto simp add: WriteInt64_appends writesI_appends split: val.splits intro!: with_depth_writes)
next
  case TInt8
  show ?case
    by (auto simp add: WriteByte_appends writesI_appends split: val.splits intro!: with_depth_writes)
next
  case TInt16
  show ?case
    by (auto simp add: WriteInt16_appends writesI_appends split: val.splits intro!: with_depth_writes)
next
  case TInt32
  show ?case
    by (auto simp add: WriteInt32_appends writesI_appends split: val.splits intro!: with_depth_writes)
next
  case TInt64
  show ?case
    by (auto simp add: WriteInt64_appends writesI_appends split: val.splits intro!: with_depth_writes)
next
  case TFloat32
  show ?case
    by (auto simp add: WriteFloat32_appends writesI_appends split: val.splits intro!: with_depth_writes)
next
  case TFloat64
  show ?case
    by (auto simp add: WriteFloat64_appends writesI_appends split: val.splits intro!: with_depth_writes)
next
  case TString
  show ?case
  proof (intro allI impI)
    fix v w assume ok: "wf_val TString v" and wf: "wfw w" and d: "w_depth w + int (height TString v) \<le> MaxDepth"
    obtain s where v: "v = VString s" using ok by (cases v) simp_all
    show "writes w (writeValue TString v w) (wire TString v)"
      unfolding v writeValue.simps
      apply (rule with_depth_writes[OF wf])
      using d apply simp
      using WriteString_appends[of _ s] apply (simp add: writesI_appends)
      done
  qed
next
  case (TSlice et)
  show ?case
  proof (intro allI impI)
    fix v w assume ok: "wf_val (TSlice et) v" and wf: "wfw w"
      and d: "w_depth w + int (height (TSlice et) v) \<le> MaxDepth"
    have d1: "w_depth w + 1 \<le> MaxDepth" using d by (cases v) (auto split: option.splits)
    show "writes w (writeValue (TSlice et) v w) (wire (TSlice et) v)"
    proof (cases v)
      case (VBytes b)
      show ?thesis
      proof (cases b)
        case None
        show ?thesis unfolding VBytes None writeValue.simps
          by (rule with_depth_writes[OF wf d1])
             (simp add: writesI_appends WriteNullCollectionHeader_appends)
      next
        case (Some bs)
        have k: "kind_of et = KUint8" using ok VBytes Some by simp
        show ?thesis unfolding VBytes Some writeValue.simps
          apply (rule with_depth_writes[OF wf d1])
          using WriteBytes_appends[of _ "Some bs"] k apply (simp add: writesI_appends)
          done
      qed
    next
      case (VSlice b)
      show ?thesis
      proof (cases b)
        case None
        show ?thesis unfolding VSlice None writeValue.simps
          by (rule with_depth_writes[OF wf d1])
             (simp add: writesI_appends WriteNullCollectionHeader_appends)
      next
        case (Some vs)
        have k: "kind_of et \<noteq> KUint8" and oks: "\<And>x. x \<in> set vs \<Longrightarrow> wf_val et x"
          using ok VSlice Some by (simp_all add: list_all_iff)
        have hs: "\<And>x. x \<in> set vs \<Longrightarrow> w_depth w + 1 + int (height et x) \<le> MaxDepth"
        proof -
          fix x assume "x \<in> set vs"
          then have "height et x \<le> max_list (map (height et) vs)" by (rule max_list_map_le)
          then show "w_depth w + 1 + int (height et x) \<le> MaxDepth"
            using d by (simp add: VSlice Some)
        qed
        show ?thesis unfolding VSlice Some writeValue.simps
        proof (rule with_depth_writes[OF wf d1])
          fix w1 assume w1: "wfw w1" "GetBytes w1 = GetBytes w" "w_depth w1 = w_depth w + 1"
          define w2 where "w2 = WriteCollectionHeader (length vs) w1"
          have a2: "appends w1 w2 (put32 (word_of_nat (length vs)))"
            unfolding w2_def using w1(1) by (rule WriteCollectionHeader_appends)
          have "writes w2 (write_all (\<lambda>x w2. writeValue et x w2) vs w2) (concat (map (wire et) vs))"
          proof (rule write_all_writes[where d = "w_depth w + 1"])
            fix x w3 assume "x \<in> set vs" "wfw w3" "w_depth w3 = w_depth w + 1"
            then show "writes w3 (writeValue et x w3) (wire et x)"
              using TSlice oks hs by simp
          qed (use a2 w1 in \<open>simp_all add: appends_def\<close>)
          then show "writes w1 (case VSlice (Some vs) of
               VBytes None \<Rightarrow> (None, WriteNullCollectionHeader w1)
             | VBytes (Some bs) \<Rightarrow>
                 (if kind_of et = KUint8 then (None, WriteBytes (Some bs) w1)
                  else (Some kind_mismatch, w1))
             | VSlice None \<Rightarrow> (None, WriteNullCollectionHeader w1)
             | VSlice (Some vs) \<Rightarrow>
                 (if kind_of et = KUint8 then (Some kind_mismatch, w1)
                  else write_all (\<lambda>x w2. writeValue et x w2) vs (WriteCollectionHeader (length vs) w1))
             | _ \<Rightarrow> (Some kind_mismatch, w1)) (wire (TSlice et) (VSlice (Some vs)))"
            using k a2 by (simp add: w2_def[symmetric] writes_def appends_def)
        qed
      qed
    qed (use ok in simp_all)
  qed
next
  case (TArray n et)
  show ?case
  proof (intro allI impI)
    fix v w assume ok: "wf_val (TArray n et) v" and wf: "wfw w"
      and d: "w_depth w + int (height (TArray n et) v) \<le> MaxDepth"
    obtain vs where v: "v = VArray vs" using ok by (cases v) simp_all
    have d1: "w_depth w + 1 \<le> MaxDepth" using d by (simp add: v)
    have oks: "\<And>x. x \<in> set vs \<Longrightarrow> wf_val et x" using ok v by (simp add: list_all_iff)
    have hs: "\<And>x. x \<in> set vs \<Longrightarrow> w_depth w + 1 + int (height et x) \<le> MaxDepth"
    proof -
      fix x assume "x \<in> set vs"
      then have "height et x \<le> max_list (map (height et) vs)" by (rule max_list_map_le)
      then show "w_depth w + 1 + int (height et x) \<le> MaxDepth"
        using d by (simp add: v)
    qed
    show "writes w (writeValue (TArray n et) v w) (wire (TArray n et) v)"
      unfolding v writeValue.simps
    proof (rule with_depth_writes[OF wf d1])
      fix w1 assume w1: "wfw w1" "GetBytes w1 = GetBytes w" "w_depth w1 = w_depth w + 1"
      define w2 where "w2 = WriteCollectionHeader (length vs) w1"
      have a2: "appends w1 w2 (put32 (word_of_nat (length vs)))"
        unfolding w2_def using w1(1) by (rule WriteCollectionHeader_appends)
      have "writes w2 (write_all (\<lambda>x w2. writeValue et x w2) vs w2) (concat (map (wire et) vs))"
      proof (rule write_all_writes[where d = "w_depth w + 1"])
        fix x w3 assume "x \<in> set vs" "wfw w3" "w_depth w3 = w_depth w + 1"
        then show "writes w3 (writeValue et x w3) (wire et x)"
          using TArray oks hs by simp
      qed (use a2 w1 in \<open>simp_all add: appends_def\<close>)
      then show "writes w1 (case VArray vs of
           VArray vs \<Rightarrow> write_all (\<lambda>x w2. writeValue et x w2) vs (WriteCollectionHeader (length vs) w1)
         | _ \<Rightarrow> (Some kind_mismatch, w1)) (wire (TArray n et) (VArray vs))"
        using a2 by (simp add: w2_def[symmetric] writes_def appends_def)
    qed
  qed
next
  case (TMap kt vt)
  show ?case
  proof (intro allI impI)
    fix v w assume ok: "wf_val (TMap kt vt) v" and wf: "wfw w"
      and d: "w_depth w + int (height (TMap kt vt) v) \<le> MaxDepth"
    have d1: "w_depth w + 1 \<le> MaxDepth" using d by (cases v) (auto split: option.splits)
    obtain m where v: "v = VMap m" using ok by (cases v) simp_all
    show "writes w (writeValue (TMap kt vt) v w) (wire (TMap kt vt) v)"
    proof (cases m)
      case None
      show ?thesis unfolding v None writeValue.simps
        by (rule with_depth_writes[OF wf d1])
           (simp add: writesI_appends WriteNullCollectionHeader_appends)
    next
      case (Some kvs)
      have oks: "\<And>kv. kv \<in> set kvs \<Longrightarrow> wf_val kt (fst kv) \<and> wf_val vt (snd kv)"
        using ok v Some by (simp add: list_all_iff)
      have hs: "\<And>kv. kv \<in> set kvs \<Longrightarrow> w_depth w + 1 + int (height kt (fst kv)) \<le> MaxDepth
                   \<and> w_depth w + 1 + int (height vt (snd kv)) \<le> MaxDepth"
      proof -
        fix kv assume "kv \<in> set kvs"
        then have "max (height kt (fst kv)) (height vt (snd kv))
              \<le> max_list (map (\<lambda>kv. max (height kt (fst kv)) (height vt (snd kv))) kvs)"
          by (rule max_list_map_le)
        then show "w_depth w + 1 + int (height kt (fst kv)) \<le> MaxDepth
                   \<and> w_depth w + 1 + int (height vt (snd kv)) \<le> MaxDepth"
          using d by (simp add: v Some)
      qed
      show ?thesis unfolding v Some writeValue.simps
      proof (rule with_depth_writes[OF wf d1])
        fix w1 assume w1: "wfw w1" "GetBytes w1 = GetBytes w" "w_depth w1 = w_depth w + 1"
        define w2 where "w2 = WriteCollectionHeader (length kvs) w1"
        define F where "F = (\<lambda>kv w3.
               case writeValue kt (fst kv) w3 of
                 (Some e, w4) \<Rightarrow> (Some e, w4)
               | (None, w4) \<Rightarrow> writeValue vt (snd kv) w4)"
        have a2: "appends w1 w2 (put32 (word_of_nat (length kvs)))"
          unfolding w2_def using w1(1) by (rule WriteCollectionHeader_appends)
        have all: "writes w2 (write_all F kvs w2) (concat (map (\<lambda>kv. wire kt (fst kv) @ wire vt (snd kv)) kvs))"
        proof (rule write_all_writes[where d = "w_depth w + 1"])
          fix kv w3 assume kv: "kv \<in> set kvs" and w3: "wfw w3" "w_depth w3 = w_depth w + 1"
          have k: "writes w3 (writeValue kt (fst kv) w3) (wire kt (fst kv))"
            using TMap(1) oks[OF kv] hs[OF kv] w3 by simp
          obtain w4 where w4: "writeValue kt (fst kv) w3 = (None, w4)"
            using k by (cases "writeValue kt (fst kv) w3") (simp add: writes_def)
          have w4p: "wfw w4" "w_depth w4 = w_depth w + 1" "GetBytes w4 = GetBytes w3 @ wire kt (fst kv)"
            using k w4 w3 by (simp_all add: writes_def)
          have "writes w4 (writeValue vt (snd kv) w4) (wire vt (snd kv))"
            using TMap(2) oks[OF kv] hs[OF kv] w4p by simp
          then show "writes w3 (F kv w3) (wire kt (fst kv) @ wire vt (snd kv))"
            using w4 w4p w3 by (simp add: F_def writes_def)
        qed (use a2 w1 in \<open>simp_all add: appends_def\<close>)
        show "writes w1 (case VMap (Some kvs) of
             VMap None \<Rightarrow> (None, WriteNullCollectionHeader w1)
           | VMap (Some kvs) \<Rightarrow>
               (let w2 = WriteCollectionHeader (length kvs) w1 in
                if length kvs > 0 then
                  write_all (\<lambda>kv w3.
                     case writeValue kt (fst kv) w3 of
                       (Some e, w4) \<Rightarrow> (Some e, w4)
                     | (None, w4) \<Rightarrow> writeValue vt (snd kv) w4) kvs w2
                else (None, w2))
           | _ \<Rightarrow> (Some kind_mismatch, w1)) (wire (TMap kt vt) (VMap (Some kvs)))"
        proof (cases "kvs = []")
          case True
          then show ?thesis using a2 by (simp add: w2_def writes_def appends_def)
        next
          case False
          then show ?thesis using a2 all
            by (simp add: w2_def[symmetric] F_def[symmetric] writes_def appends_def)
        qed
      qed
    qed
  qed
next
  case (TStruct fs)
  show ?case
  proof (intro allI impI)
    fix v w assume ok: "wf_val (TStruct fs) v" and wf: "wfw w"
      and d: "w_depth w + int (height (TStruct fs) v) \<le> MaxDepth"
    have d1: "w_depth w + 1 \<le> MaxDepth" using d by (cases v) auto
    show "writes w (writeValue (TStruct fs) v w) (wire (TStruct fs) v)"
      unfolding writeValue.simps
    proof (rule with_depth_writes[OF wf d1])
      fix w1 assume w1: "wfw w1" "GetBytes w1 = GetBytes w" "w_depth w1 = w_depth w + 1"
      show "writes w1 (SerializeStruct fs v w1) (wire (TStruct fs) v)"
      proof (rule SerializeStruct_writes_aux[OF _ _ ok w1(1)])
        show "w_depth w1 + int (height (TStruct fs) v) \<le> MaxDepth + 1" using d w1 by simp
      qed (use TStruct getFormatterData_index in auto)
    qed
  qed
next
  case (TPtr et)
  show ?case
  proof (intro allI impI)
    fix v w assume ok: "wf_val (TPtr et) v" and wf: "wfw w"
      and d: "w_depth w + int (height (TPtr et) v) \<le> MaxDepth"
    have d1: "w_depth w + 1 \<le> MaxDepth" using d by (cases v) (auto split: option.splits)
    obtain p where v: "v = VPtr p" using ok by (cases v) simp_all
    show "writes w (writeValue (TPtr et) v w) (wire (TPtr et) v)"
    proof (cases p)
      case None
      show ?thesis unfolding v None writeValue.simps
        by (rule with_depth_writes[OF wf d1]) (simp add: writesI_appends WriteByte_appends)
    next
      case (Some x)
      have okx: "wf_val et x" using ok v Some by simp
      show ?thesis unfolding v Some writeValue.simps
      proof (rule with_depth_writes[OF wf d1])
        fix w1 assume w1: "wfw w1" "GetBytes w1 = GetBytes w" "w_depth w1 = w_depth w + 1"
        have "writes w1 (writeValue et x w1) (wire et x)"
          using TPtr okx w1 d by (simp add: v Some)
        then show "writes w1 (case VPtr (Some x) of
             VPtr None \<Rightarrow> (None, WriteByte NullObject w1)
           | VPtr (Some x) \<Rightarrow> writeValue et x w1
           | _ \<Rightarrow> (Some kind_mismatch, w1)) (wire (TPtr et) (VPtr (Some x)))"
          by simp
      qed
    qed
  qed
next
  case (TOther k)
  show ?case by simp
qed

lemma writeValue_wire:
  "wf_val t v \<Longrightarrow> wfw w \<Longrightarrow> w_depth w + int (height t v) \<le> MaxDepth \<Longrightarrow>
   writes w (writeValue t v w) (wire t v)"
  using writeValue_wire_aux by blast

lemma SerializeStruct_wire:
  "wf_val (TStruct fs) v \<Longrightarrow> wfw w \<Longrightarrow> w_depth w + int (height (TStruct fs) v) \<le> MaxDepth + 1 \<Longrightarrow>
   writes w (SerializeStruct fs v w) (wire (TStruct fs) v)"
  by (rule SerializeStruct_writes_aux) (use writeValue_wire getFormatterData_index in auto)

lemma Elem_ptr [simp]: "Elem (TPtr et, VPtr (Some x)) = (et, x)"
  by (simp add: Elem_def)

lemma dispatch_wire:
  assumes ok: "wf_val t v" and h: "int (height t v) \<le> MaxDepth + (if kind_of t = KStruct then 1 else 0)"
    and wf: "wfw w0" and d0: "w_depth w0 = 0"
  shows "writes w0 (case t of TStruct fs \<Rightarrow> SerializeStruct fs v w0 | _ \<Rightarrow> writeValue t v w0) (wire t v)"
proof (cases t)
  case (TStruct fs)
  have "writes w0 (SerializeStruct fs v w0) (wire (TStruct fs) v)"
    using ok h wf d0 by (intro SerializeStruct_wire) (simp_all add: TStruct)
  then show ?thesis by (simp add: TStruct)
next
  case TOther
  then show ?thesis using ok by simp
qed (use writeValue_wire[OF ok wf] h d0 in simp_all)

lemma height_pos: "0 < height t v"
  by (cases t) (simp_all split: val.splits option.splits)

lemma Serialize_run_wire:
  assumes ok: "wf_val t v" and h: "int (nesting t v) \<le> MaxDepth"
    and wf: "wfw w0" and d0: "w_depth w0 = 0"
  shows "writes w0 (Serialize_generic t v w0) (wire t v)"
proof (cases "kind_of t = KPtr")
  case False
  have "int (height t v) \<le> MaxDepth + (if kind_of t = KStruct then 1 else 0)"
    using h False height_pos[of t v] by (auto simp add: nesting_def)
  then show ?thesis using dispatch_wire[OF ok _ wf d0] False by (simp add: Serialize_generic_def)
next
  case True
  then obtain et where t: "t = TPtr et" using ok by (cases t) simp_all
  obtain p where v: "v = VPtr p" using ok t by (cases v) simp_all
  show ?thesis
  proof (cases p)
    case None
    then show ?thesis using wf
      by (simp add: Serialize_generic_def t v writesI_appends WriteByte_appends)
  next
    case (Some x)
    have okx: "wf_val et x" using ok t v Some by simp
    have hx: "int (height et x) \<le> MaxDepth + (if kind_of et = KStruct then 1 else 0)"
      using h t v Some height_pos[of et x] by (auto simp add: nesting_def)
    show ?thesis using dispatch_wire[OF okx hx wf d0] by (simp add: Serialize_generic_def t v Some)
  qed
qed

lemma Serialize_wire:
  assumes "wf_val t v" and "int (nesting t v) \<le> MaxDepth"
  shows "Serialize None t v = Inr (wire t v)"
proof -
  from Serialize_run_wire[OF assms wfw_NewWriter(1) wfw_NewWriter(3), of 128]
  show ?thesis
    by (cases "Serialize_run None t v")
       (simp add: Serialize_def Serialize_run_def writes_def wfw_NewWriter Let_def)
qed

lemma Serialize_formatter_wire:
  assumes "wf_val t v" and "int (nesting t v) \<le> MaxDepth"
    and "fmt (NewWriter 128) = (None, w1)" and "wfw w1" and "w_depth w1 = 0"
  shows "Serialize (Some fmt) t v = Inr (GetBytes w1 @ wire t v)"
proof -
  from Serialize_run_wire[OF assms(1,2,4,5)]
  show ?thesis
    by (cases "Serialize_run (Some fmt) t v")
       (simp add: Serialize_def Serialize_run_def writes_def assms(3) Let_def)
qed

section \<open>The depth counter\<close>

definition same_depth :: "Writer \<Rightarrow> Writer \<Rightarrow> bool" where
  "same_depth w w' = (w_depth w' = w_depth w \<and> w_trace w' = w_trace w)"

lemma same_depth_refl [simp]: "same_depth w w"
  by (simp add: same_depth_def)

lemma same_depth_ensureCapacity [simp]: "same_depth w (ensureCapacity n w)"
  by (simp add: same_depth_def ensureCapacity_def Let_def)

lemma same_depth_prims [simp]:
  "same_depth w (WriteByte b w)" "same_depth w (WriteInt16 x16 w)" "same_depth w (WriteInt32 x32 w)"
  "same_depth w (WriteInt64 x64 w)" "same_depth w (WriteFloat32 x32 w)"
  "same_depth w (WriteFloat64 x64 w)" "same_depth w (WriteBool bb w)"
  "same_depth w (WriteCollectionHeader n w)" "same_depth w (WriteNullCollectionHeader w)"
  by (simp_all add: same_depth_def WriteByte_def WriteInt16_def WriteInt32_def WriteInt64_def
      WriteFloat32_def WriteFloat64_def WriteBool_def WriteCollectionHeader_def
      WriteNullCollectionHeader_def ensureCapacity_def Let_def)

lemma same_depth_WriteBytes [simp]: "same_depth w (WriteBytes bs w)"
  by (cases bs) (simp_all add: same_depth_def WriteBytes_def WriteInt32_def ensureCapacity_def Let_def)

lemma same_depth_WriteString [simp]: "same_depth w (WriteString s w)"
  by (simp add: same_depth_def WriteString_def WriteInt32_def ensureCapacity_def Let_def)

lemma same_depth_WriteObjectHeader [simp]: "same_depth w (snd (WriteObjectHeader n w))"
  using same_depth_prims(1) by (simp add: WriteObjectHeader_def same_depth_def)

lemma WriteObjectHeader_not_depth [simp]: "fst (WriteObjectHeader n w) \<noteq> Some DepthExceeded"
  by (simp add: WriteObjectHeader_def)

fun unit_steps :: "int list \<Rightarrow> bool" where
  "unit_steps (x # y # zs) = ((y = x + 1 \<or> y = x - 1) \<and> unit_steps (y # zs))"
| "unit_steps _ = True"

definition depth_run :: "Writer \<Rightarrow> error option \<times> Writer \<Rightarrow> bool" where
  "depth_run w res =
     (\<exists>h. w_trace (snd res) = w_trace w @ h
          \<and> list_all (\<lambda>d. w_depth w \<le> d \<and> d \<le> MaxDepth + 1) h
          \<and> unit_steps (w_depth w # h)
          \<and> last (w_depth w # h) = w_depth (snd res)
          \<and> (fst res = Some DepthExceeded) = (MaxDepth + 1 \<in> set h)
          \<and> w_depth (snd res) = (if fst res = Some DepthExceeded then w_depth w + 1 else w_depth w))"

definition depth_call :: "Writer \<Rightarrow> error option \<times> Writer \<Rightarrow> bool" where
  "depth_call w res =
     (depth_run w res \<and> (\<exists>h. w_trace (snd res) = w_trace w @ (w_depth w + 1) # h))"

lemma unit_steps_append:
  "unit_steps (xs @ [x]) \<Longrightarrow> unit_steps (x # ys) \<Longrightarrow> unit_steps (xs @ x # ys)"
  by (induction xs rule: unit_steps.induct) auto

lemma unit_steps_snoc:
  "unit_steps (x # xs) \<Longrightarrow> y = last (x # xs) + 1 \<or> y = last (x # xs) - 1 \<Longrightarrow>
   unit_steps (x # xs @ [y])"
  by (induction xs arbitrary: x) auto

lemma depth_run_same: "same_depth w w' \<Longrightarrow> r \<noteq> Some DepthExceeded \<Longrightarrow> depth_run w (r, w')"
  by (simp add: depth_run_def same_depth_def)

lemma depth_run_trans:
  assumes 1: "depth_run w (None, w1)" and 2: "depth_run w1 res"
  shows "depth_run w res"
proof -
  from 1 obtain h1 where h1: "w_trace w1 = w_trace w @ h1"
      "list_all (\<lambda>d. w_depth w \<le> d \<and> d \<le> MaxDepth + 1) h1" "unit_steps (w_depth w # h1)"
      "last (w_depth w # h1) = w_depth w1" "MaxDepth + 1 \<notin> set h1" "w_depth w1 = w_depth w"
    by (auto simp add: depth_run_def)
  from 2 obtain h2 where h2: "w_trace (snd res) = w_trace w1 @ h2"
      "list_all (\<lambda>d. w_depth w1 \<le> d \<and> d \<le> MaxDepth + 1) h2" "unit_steps (w_depth w1 # h2)"
      "last (w_depth w1 # h2) = w_depth (snd res)"
      "(fst res = Some DepthExceeded) = (MaxDepth + 1 \<in> set h2)"
      "w_depth (snd res) = (if fst res = Some DepthExceeded then w_depth w1 + 1 else w_depth w1)"
    by (auto simp add: depth_run_def)
  have u: "unit_steps (w_depth w # h1 @ h2)"
  proof (cases h1 rule: rev_cases)
    case Nil
    then show ?thesis using h2(3) h1(6) by simp
  next
    case (snoc ys y)
    then have "y = w_depth w1" using h1(4) by simp
    then show ?thesis
      using unit_steps_append[of "w_depth w # ys" "w_depth w1" h2] h1(3) h2(3) snoc by simp
  qed
  have l: "last (w_depth w # h1 @ h2) = w_depth (snd res)"
    using h1(4) h2(4) by (cases h2) (auto simp add: h1(6))
  show ?thesis
    unfolding depth_run_def
    by (rule exI[of _ "h1 @ h2"]) (use h1 h2 u l in auto)
qed

lemma depth_run_after:
  "same_depth w w1 \<Longrightarrow> depth_run w1 res \<Longrightarrow> depth_run w res"
  by (rule depth_run_trans[of w w1]) (simp_all add: depth_run_same)

lemma depth_run_frame:
  assumes b: "depth_run w1 res" and d1: "w_depth w1 = d + 1" and t1: "w_trace w1 = t @ [d + 1]"
    and le: "d + 1 \<le> MaxDepth"
  shows "\<exists>h. w_trace (EndCheckDepth (snd res)) = t @ (d + 1) # h
           \<and> list_all (\<lambda>x. d \<le> x \<and> x \<le> MaxDepth + 1) ((d + 1) # h)
           \<and> unit_steps (d # (d + 1) # h)
           \<and> last (d # (d + 1) # h) = w_depth (EndCheckDepth (snd res))
           \<and> (fst res = Some DepthExceeded) = (MaxDepth + 1 \<in> set ((d + 1) # h))
           \<and> w_depth (EndCheckDepth (snd res)) = (if fst res = Some DepthExceeded then d + 1 else d)"
proof -
  from b obtain h where h: "w_trace (snd res) = w_trace w1 @ h"
      "list_all (\<lambda>x. w_depth w1 \<le> x \<and> x \<le> MaxDepth + 1) h" "unit_steps (w_depth w1 # h)"
      "last (w_depth w1 # h) = w_depth (snd res)"
      "(fst res = Some DepthExceeded) = (MaxDepth + 1 \<in> set h)"
      "w_depth (snd res) = (if fst res = Some DepthExceeded then w_depth w1 + 1 else w_depth w1)"
    unfolding depth_run_def by blast
  define f where "f = w_depth (snd res)"
  have f: "f = (if fst res = Some DepthExceeded then d + 2 else d + 1)"
    unfolding f_def h(6) d1 by simp
  have tr: "w_trace (EndCheckDepth (snd res)) = t @ (d + 1) # h @ [f - 1]"
    unfolding EndCheckDepth_def f_def by (simp add: h(1) t1)
  have fd: "w_depth (EndCheckDepth (snd res)) = f - 1"
    unfolding EndCheckDepth_def f_def by simp
  have l0: "last ((d + 1) # h) = f" using h(4) unfolding d1 f_def .
  have u0: "unit_steps ((d + 1) # h)" using h(3) unfolding d1 .
  have u1: "unit_steps ((d + 1) # h @ [f - 1])"
    by (rule unit_steps_snoc[OF u0]) (simp only: l0, simp)
  have u: "unit_steps (d # (d + 1) # h @ [f - 1])"
    using u1 by simp
  have b0: "list_all (\<lambda>x. d \<le> x \<and> x \<le> MaxDepth + 1) h"
    using h(2) unfolding d1 by (auto simp add: list_all_iff)
  have b1: "d \<le> f - 1" "f - 1 \<le> MaxDepth" using f le by (simp_all split: if_splits)
  have bounds: "list_all (\<lambda>x. d \<le> x \<and> x \<le> MaxDepth + 1) ((d + 1) # h @ [f - 1])"
    using b0 b1 le by simp
  have de: "(fst res = Some DepthExceeded) = (MaxDepth + 1 \<in> set ((d + 1) # h @ [f - 1]))"
    using h(5) b1 le by auto
  have fin: "f - 1 = (if fst res = Some DepthExceeded then d + 1 else d)"
    using f by simp
  have la: "last (d # (d + 1) # h @ [f - 1]) = f - 1" by simp
  show ?thesis
  proof (intro exI[of _ "h @ [f - 1]"] conjI)
    show "w_trace (EndCheckDepth (snd res)) = t @ (d + 1) # h @ [f - 1]" by (rule tr)
    show "list_all (\<lambda>x. d \<le> x \<and> x \<le> MaxDepth + 1) ((d + 1) # h @ [f - 1])" by (rule bounds)
    show "unit_steps (d # (d + 1) # h @ [f - 1])" by (rule u)
    show "last (d # (d + 1) # h @ [f - 1]) = w_depth (EndCheckDepth (snd res))"
      unfolding fd by (rule la)
    show "(fst res = Some DepthExceeded) = (MaxDepth + 1 \<in> set ((d + 1) # h @ [f - 1]))" by (rule de)
    show "w_depth (EndCheckDepth (snd res)) = (if fst res = Some DepthExceeded then d + 1 else d)"
      unfolding fd by (rule fin)
  qed
qed

lemma with_depth_call:
  assumes "0 \<le> w_depth w" and "w_depth w \<le> MaxDepth"
    and "\<And>w1. 0 \<le> w_depth w1 \<Longrightarrow> w_depth w1 \<le> MaxDepth \<Longrightarrow> w_depth w1 = w_depth w + 1 \<Longrightarrow>
            depth_run w1 (body w1)"
  shows "depth_call w (with_depth w body)"
proof -
  define w1 where "w1 = w\<lparr>w_depth := w_depth w + 1, w_trace := w_trace w @ [w_depth w + 1]\<rparr>"
  have d1: "w_depth w1 = w_depth w + 1" and t1: "w_trace w1 = w_trace w @ [w_depth w + 1]"
    by (simp_all add: w1_def)
  show ?thesis
  proof (cases "w_depth w + 1 > MaxDepth")
    case True
    then have r: "with_depth w body = (Some DepthExceeded, w1)"
      by (simp add: with_depth_def CheckDepth_def Let_def w1_def)
    have "w_depth w = MaxDepth" using True assms(2) by simp
    then show ?thesis
      unfolding depth_call_def depth_run_def r by (simp add: d1 t1)
  next
    case False
    then have c: "CheckDepth w = (None, w1)"
      by (simp add: CheckDepth_def Let_def w1_def)
    have b: "depth_run w1 (body w1)"
      using assms(1,2) False by (intro assms(3)) (simp_all add: d1)
    have res: "with_depth w body = (fst (body w1), EndCheckDepth (snd (body w1)))"
      by (simp add: with_depth_def c split: prod.splits)
    from depth_run_frame[OF b d1 t1] False
    obtain h where h: "w_trace (EndCheckDepth (snd (body w1))) = w_trace w @ (w_depth w + 1) # h"
       "list_all (\<lambda>x. w_depth w \<le> x \<and> x \<le> MaxDepth + 1) ((w_depth w + 1) # h)"
       "unit_steps (w_depth w # (w_depth w + 1) # h)"
       "last (w_depth w # (w_depth w + 1) # h) = w_depth (EndCheckDepth (snd (body w1)))"
       "(fst (body w1) = Some DepthExceeded) = (MaxDepth + 1 \<in> set ((w_depth w + 1) # h))"
       "w_depth (EndCheckDepth (snd (body w1))) = (if fst (body w1) = Some DepthExceeded then w_depth w + 1 else w_depth w)"
      by (auto simp add: not_less)
    have "depth_run w (with_depth w body)"
      unfolding depth_run_def res fst_conv snd_conv
      by (rule exI[of _ "(w_depth w + 1) # h"]) (use h in blast)
    moreover have "\<exists>h. w_trace (snd (with_depth w body)) = w_trace w @ (w_depth w + 1) # h"
      unfolding res snd_conv using h(1) by blast
    ultimately show ?thesis by (simp add: depth_call_def)
  qed
qed

lemma write_all_run:
  assumes "\<And>x w1. x \<in> set xs \<Longrightarrow> w_depth w1 = w_depth w \<Longrightarrow> depth_run w1 (f x w1)"
  shows "depth_run w (write_all f xs w)"
  using assms
proof (induction xs arbitrary: w)
  case Nil
  then show ?case by (simp add: depth_run_def)
next
  case (Cons x xs)
  have s1: "depth_run w (f x w)" using Cons.prems by simp
  show ?case
  proof (cases "f x w")
    case (Pair r w1)
    show ?thesis
    proof (cases r)
      case None
      have d1: "w_depth w1 = w_depth w" using s1 Pair None by (auto simp add: depth_run_def)
      have "depth_run w1 (write_all f xs w1)"
        using Cons.prems d1 by (intro Cons.IH) simp
      then show ?thesis using s1 Pair None depth_run_trans[of w w1] by simp
    next
      case (Some e)
      then show ?thesis using s1 Pair by simp
    qed
  qed
qed

lemma depth_callD: "depth_call w res \<Longrightarrow> depth_run w res"
  by (simp add: depth_call_def)

lemma header_write_all_run:
  assumes "\<And>x w2. w_depth w2 = w_depth w \<Longrightarrow> depth_run w2 (f x w2)"
  shows "depth_run w (write_all f xs (WriteCollectionHeader n w))"
proof -
  have sd: "same_depth w (WriteCollectionHeader n w)" by simp
  have "depth_run (WriteCollectionHeader n w) (write_all f xs (WriteCollectionHeader n w))"
    by (rule write_all_run) (use assms sd in \<open>simp add: same_depth_def\<close>)
  with sd show ?thesis by (rule depth_run_after)
qed

lemma SerializeStruct_run_aux:
  assumes IH: "\<And>i v w. i < length fs \<Longrightarrow> 0 \<le> w_depth w \<Longrightarrow> w_depth w \<le> MaxDepth \<Longrightarrow>
                 depth_call w (writeValue (f_type (fs ! i)) v w)"
    and d: "0 \<le> w_depth w" "w_depth w \<le> MaxDepth"
  shows "depth_run w (SerializeStruct fs v w)"
proof (cases "WriteObjectHeader (int (length (getFormatterData fs))) w")
  case (Pair r w1)
  have sd: "same_depth w w1" and nd: "r \<noteq> Some DepthExceeded"
    using same_depth_WriteObjectHeader[of w "int (length (getFormatterData fs))"]
      WriteObjectHeader_not_depth[of "int (length (getFormatterData fs))" w] Pair by simp_all
  show ?thesis
  proof (cases r)
    case (Some e)
    then show ?thesis using Pair sd nd
      by (subst SerializeStruct.simps) (simp add: Let_def depth_run_same)
  next
    case None
    have "depth_run w1 (write_all (\<lambda>fi w2.
             case v of
               VStruct vs \<Rightarrow>
                 (if fi_index fi < length fs \<and> fi_index fi < length vs
                  then writeValue (f_type (fs ! fi_index fi)) (vs ! fi_index fi) w2
                  else (Some (Panic ''reflect: Field index out of range''), w2))
             | _ \<Rightarrow> (Some kind_mismatch, w2)) (getFormatterData fs) w1)"
    proof (rule write_all_run)
      fix fi :: fieldInfo and w2 :: Writer assume w2: "w_depth w2 = w_depth w1"
      then have w2d: "0 \<le> w_depth w2" "w_depth w2 \<le> MaxDepth"
        using d sd by (simp_all add: same_depth_def)
      show "depth_run w2 (case v of
               VStruct vs \<Rightarrow>
                 (if fi_index fi < length fs \<and> fi_index fi < length vs
                  then writeValue (f_type (fs ! fi_index fi)) (vs ! fi_index fi) w2
                  else (Some (Panic ''reflect: Field index out of range''), w2))
             | _ \<Rightarrow> (Some kind_mismatch, w2))"
        using IH[THEN depth_callD] w2d
        by (auto simp add: depth_run_same same_depth_def kind_mismatch_def split: val.splits)
    qed
    then show ?thesis using Pair None sd
      by (subst SerializeStruct.simps) (simp add: Let_def depth_run_after)
  qed
qed

lemma leaf_call:
  assumes "0 \<le> w_depth w" "w_depth w \<le> MaxDepth"
    and "\<And>w1. same_depth w1 (snd (body w1))" "\<And>w1. fst (body w1) \<noteq> Some DepthExceeded"
  shows "depth_call w (with_depth w body)"
proof (rule with_depth_call[OF assms(1,2)])
  fix w1 :: Writer
  show "depth_run w1 (body w1)"
    using depth_run_same[of w1 "snd (body w1)" "fst (body w1)"] assms(3,4) by simp
qed

lemma writeValue_call_aux:
  "\<forall>v (w::Writer). 0 \<le> w_depth w \<longrightarrow> w_depth w \<le> MaxDepth \<longrightarrow> depth_call w (writeValue t v w)"
proof (induction t rule: ty_induct)
  case (TSlice et)
  show ?case
  proof (intro allI impI)
    fix v :: val and w :: Writer assume d: "0 \<le> w_depth w" "w_depth w \<le> MaxDepth"
    show "depth_call w (writeValue (TSlice et) v w)"
      unfolding writeValue.simps
    proof (rule with_depth_call[OF d])
      fix w1 :: Writer assume w1: "0 \<le> w_depth w1" "w_depth w1 \<le> MaxDepth"
      have "\<And>vs. depth_run w1 (write_all (\<lambda>x w2. writeValue et x w2) vs (WriteCollectionHeader (length vs) w1))"
        using TSlice w1 by (intro header_write_all_run) (simp add: depth_callD)
      then show "depth_run w1 (case v of
       VBytes None \<Rightarrow> (None, WriteNullCollectionHeader w1)
     | VBytes (Some bs) \<Rightarrow>
         (if kind_of et = KUint8 then (None, WriteBytes (Some bs) w1)
          else (Some kind_mismatch, w1))
     | VSlice None \<Rightarrow> (None, WriteNullCollectionHeader w1)
     | VSlice (Some vs) \<Rightarrow>
         (if kind_of et = KUint8 then (Some kind_mismatch, w1)
          else write_all (\<lambda>x w2. writeValue et x w2) vs (WriteCollectionHeader (length vs) w1))
     | _ \<Rightarrow> (Some kind_mismatch, w1))"
        by (auto simp add: depth_run_same kind_mismatch_def split: val.splits option.splits)
    qed
  qed
next
  case (TArray n et)
  show ?case
  proof (intro allI impI)
    fix v :: val and w :: Writer assume d: "0 \<le> w_depth w" "w_depth w \<le> MaxDepth"
    show "depth_call w (writeValue (TArray n et) v w)"
      unfolding writeValue.simps
    proof (rule with_depth_call[OF d])
      fix w1 :: Writer assume w1: "0 \<le> w_depth w1" "w_depth w1 \<le> MaxDepth"
      have "\<And>vs. depth_run w1 (write_all (\<lambda>x w2. writeValue et x w2) vs (WriteCollectionHeader (length vs) w1))"
        using TArray w1 by (intro header_write_all_run) (simp add: depth_callD)
      then show "depth_run w1 (case v of
       VArray vs \<Rightarrow>
         write_all (\<lambda>x w2. writeValue et x w2) vs (WriteCollectionHeader (length vs) w1)
     | _ \<Rightarrow> (Some kind_mismatch, w1))"
        by (auto simp add: depth_run_same kind_mismatch_def split: val.splits)
    qed
  qed
next
  case (TMap kt vt)
  show ?case
  proof (intro allI impI)
    fix v :: val and w :: Writer assume d: "0 \<le> w_depth w" "w_depth w \<le> MaxDepth"
    show "depth_call w (writeValue (TMap kt vt) v w)"
      unfolding writeValue.simps
    proof (rule with_depth_call[OF d])
      fix w1 :: Writer assume w1: "0 \<le> w_depth w1" "w_depth w1 \<le> MaxDepth"
      have pair: "\<And>(kv :: val \<times> val) (w3 :: Writer). w_depth w3 = w_depth w1 \<Longrightarrow> depth_run w3 (case writeValue kt (fst kv) w3 of
                 (Some e, w4) \<Rightarrow> (Some e, w4)
               | (None, w4) \<Rightarrow> writeValue vt (snd kv) w4)"
      proof -
        fix kv :: "val \<times> val" and w3 :: Writer assume w3: "w_depth w3 = w_depth w1"
        have k: "depth_run w3 (writeValue kt (fst kv) w3)" using TMap(1) w3 w1 by (simp add: depth_callD)
        show "depth_run w3 (case writeValue kt (fst kv) w3 of
                 (Some e, w4) \<Rightarrow> (Some e, w4)
               | (None, w4) \<Rightarrow> writeValue vt (snd kv) w4)"
        proof (cases "writeValue kt (fst kv) w3")
          case (Pair r w4)
          show ?thesis
          proof (cases r)
            case None
            have "w_depth w4 = w_depth w3" using k Pair None by (auto simp add: depth_run_def)
            then have "depth_run w4 (writeValue vt (snd kv) w4)" using TMap(2) w3 w1 by (simp add: depth_callD)
            then show ?thesis using k Pair None by (simp add: depth_run_trans)
          next
            case (Some e)
            then show ?thesis using k Pair by simp
          qed
        qed
      qed
      have "\<And>kvs. depth_run w1 (write_all (\<lambda>kv w3.
               case writeValue kt (fst kv) w3 of
                 (Some e, w4) \<Rightarrow> (Some e, w4)
               | (None, w4) \<Rightarrow> writeValue vt (snd kv) w4) kvs (WriteCollectionHeader (length kvs) w1))"
        by (intro header_write_all_run pair)
      then show "depth_run w1 (case v of
       VMap None \<Rightarrow> (None, WriteNullCollectionHeader w1)
     | VMap (Some kvs) \<Rightarrow>
         (let w2 = WriteCollectionHeader (length kvs) w1 in
          if length kvs > 0 then
            write_all (\<lambda>kv w3.
               case writeValue kt (fst kv) w3 of
                 (Some e, w4) \<Rightarrow> (Some e, w4)
               | (None, w4) \<Rightarrow> writeValue vt (snd kv) w4) kvs w2
          else (None, w2))
     | _ \<Rightarrow> (Some kind_mismatch, w1))"
        by (auto simp add: depth_run_same kind_mismatch_def Let_def
            split: val.splits option.splits)
    qed
  qed
next
  case (TStruct fs)
  show ?case
  proof (intro allI impI)
    fix v :: val and w :: Writer assume d: "0 \<le> w_depth w" "w_depth w \<le> MaxDepth"
    show "depth_call w (writeValue (TStruct fs) v w)"
      unfolding writeValue.simps
      by (rule with_depth_call[OF d]) (rule SerializeStruct_run_aux, use TStruct in auto)
  qed
next
  case (TPtr et)
  show ?case
  proof (intro allI impI)
    fix v :: val and w :: Writer assume d: "0 \<le> w_depth w" "w_depth w \<le> MaxDepth"
    show "depth_call w (writeValue (TPtr et) v w)"
      unfolding writeValue.simps
      apply (rule with_depth_call[OF d])
      using TPtr
      apply (auto simp add: depth_run_same kind_mismatch_def depth_callD
          split: val.splits option.splits)
      done
  qed
next
  case TBool
  show ?case
    by (intro allI impI, simp only: writeValue.simps, rule leaf_call)
       (simp_all add: kind_mismatch_def split: val.splits)
next
  case TInt
  show ?case
    by (intro allI impI, simp only: writeValue.simps, rule leaf_call)
       (simp_all add: kind_mismatch_def split: val.splits)
next
  case TInt8
  show ?case
    by (intro allI impI, simp only: writeValue.simps, rule leaf_call)
       (simp_all add: kind_mismatch_def split: val.splits)
next
  case TInt16
  show ?case
    by (intro allI impI, simp only: writeValue.simps, rule leaf_call)
       (simp_all add: kind_mismatch_def split: val.splits)
next
  case TInt32
  show ?case
    by (intro allI impI, simp only: writeValue.simps, rule leaf_call)
       (simp_all add: kind_mismatch_def split: val.splits)
next
  case TInt64
  show ?case
    by (intro allI impI, simp only: writeValue.simps, rule leaf_call)
       (simp_all add: kind_mismatch_def split: val.splits)
next
  case TFloat32
  show ?case
    by (intro allI impI, simp only: writeValue.simps, rule leaf_call)
       (simp_all add: kind_mismatch_def split: val.splits)
next
  case TFloat64
  show ?case
    by (intro allI impI, simp only: writeValue.simps, rule leaf_call)
       (simp_all add: kind_mismatch_def split: val.splits)
next
  case TString
  show ?case
    by (intro allI impI, simp only: writeValue.simps, rule leaf_call)
       (simp_all add: kind_mismatch_def split: val.splits)
next
  case (TOther k)
  show ?case
    by (intro allI impI, simp only: writeValue.simps, rule leaf_call) simp_all
qed


lemma writeValue_call:
  "0 \<le> w_depth w \<Longrightarrow> w_depth w \<le> MaxDepth \<Longrightarrow> depth_call w (writeValue t v w)"
  using writeValue_call_aux by blast

lemma SerializeStruct_run:
  "0 \<le> w_depth w \<Longrightarrow> w_depth w \<le> MaxDepth \<Longrightarrow> depth_run w (SerializeStruct fs v w)"
  by (rule SerializeStruct_run_aux) (use writeValue_call in auto)

lemma Serialize_generic_run:
  "0 \<le> w_depth w \<Longrightarrow> w_depth w \<le> MaxDepth \<Longrightarrow> depth_run w (Serialize_generic t v w)"
  by (simp add: Serialize_generic_def depth_run_same writeValue_call[THEN depth_callD] SerializeStruct_run
      del: writeValue.simps split: prod.splits ty.splits)

section \<open>What the reader decodes\<close>

text \<open>
  \<open>input r bs\<close>: the bytes from the cursor of \<open>r\<close> to the end of its buffer are \<open>bs\<close>.
  \<open>decodes f bs x\<close>: wherever the input begins with \<open>bs\<close>, the read \<open>f\<close> returns \<open>x\<close> and
  moves the cursor past \<open>bs\<close>; and where the input is a proper prefix of \<open>bs\<close> and ends there,
  \<open>f\<close> fails with a truncation error.
\<close>

definition input :: "Reader \<Rightarrow> byte list \<Rightarrow> bool" where
  "input r bs = (r_pos r \<le> length (r_buffer r) \<and> drop (r_pos r) (r_buffer r) = bs)"

definition adv :: "nat \<Rightarrow> Reader \<Rightarrow> Reader" where
  "adv n r = r\<lparr>r_pos := r_pos r + n\<rparr>"

definition fails :: "(error + 'a) \<times> Reader \<Rightarrow> bool" where
  "fails res = (case fst res of Inl e \<Rightarrow> TruncatedInput e | Inr _ \<Rightarrow> False)"

definition decodes :: "'a rd \<Rightarrow> byte list \<Rightarrow> 'a \<Rightarrow> bool" where
  "decodes f bs x =
     ((\<forall>r rest. input r (bs @ rest) \<longrightarrow> f r = (Inr x, adv (length bs) r))
      \<and> (\<forall>r k. k < length bs \<longrightarrow> input r (take k bs) \<longrightarrow> fails (f r)))"

definition ret :: "'a \<Rightarrow> 'a rd" where
  "ret x r = (Inr x, r)"

definition bnd :: "'a rd \<Rightarrow> ('a \<Rightarrow> 'b rd) \<Rightarrow> 'b rd" where
  "bnd f g r = (case f r of (Inl e, r1) \<Rightarrow> (Inl e, r1) | (Inr x, r1) \<Rightarrow> g x r1)"

lemma input_adv: "input r (bs @ rest) \<Longrightarrow> input (adv (length bs) r) rest"
proof -
  assume i: "input r (bs @ rest)"
  then have d: "drop (r_pos r) (r_buffer r) = bs @ rest" and p: "r_pos r \<le> length (r_buffer r)"
    by (simp_all add: input_def)
  have "length (drop (r_pos r) (r_buffer r)) = length bs + length rest" using d by simp
  then have l: "r_pos r + length bs \<le> length (r_buffer r)" using p by simp
  have "drop (length bs) (drop (r_pos r) (r_buffer r)) = rest" using d by simp
  then have "drop (r_pos r + length bs) (r_buffer r) = rest" by (simp add: add.commute)
  then show ?thesis using l by (simp add: input_def adv_def)
qed

lemma input_length: "input r bs \<Longrightarrow> r_pos r + length bs = length (r_buffer r)"
  by (auto simp add: input_def)

lemma adv_adv [simp]: "adv m (adv n r) = adv (n + m) r"
  by (simp add: adv_def)

lemma adv_0 [simp]: "adv 0 r = r"
  by (simp add: adv_def)

lemma decodesI:
  assumes "\<And>r rest. input r (bs @ rest) \<Longrightarrow> f r = (Inr x, adv (length bs) r)"
    and "\<And>r k. k < length bs \<Longrightarrow> input r (take k bs) \<Longrightarrow> fails (f r)"
  shows "decodes f bs x"
  using assms by (simp add: decodes_def)

lemma decodes_read: "decodes f bs x \<Longrightarrow> input r (bs @ rest) \<Longrightarrow> f r = (Inr x, adv (length bs) r)"
  by (auto simp add: decodes_def)

lemma decodes_short: "decodes f bs x \<Longrightarrow> k < length bs \<Longrightarrow> input r (take k bs) \<Longrightarrow> fails (f r)"
  by (simp add: decodes_def)

lemma decodes_ret: "decodes (ret x) [] x"
  by (simp add: decodes_def ret_def)

lemma decodes_bnd:
  assumes f: "decodes f bs1 x" and g: "decodes (g x) bs2 y"
  shows "decodes (bnd f g) (bs1 @ bs2) y"
proof (rule decodesI)
  fix r rest assume "input r ((bs1 @ bs2) @ rest)"
  then have i: "input r (bs1 @ (bs2 @ rest))" by simp
  have "input (adv (length bs1) r) (bs2 @ rest)" using input_adv[OF i] .
  then show "bnd f g r = (Inr y, adv (length (bs1 @ bs2)) r)"
    using decodes_read[OF f i] decodes_read[OF g] by (simp add: bnd_def)
next
  fix r k assume k: "k < length (bs1 @ bs2)" and i: "input r (take k (bs1 @ bs2))"
  show "fails (bnd f g r)"
  proof (cases "k < length bs1")
    case True
    then have "fails (f r)" using decodes_short[OF f True] i by simp
    then show ?thesis by (cases "f r") (auto simp add: fails_def bnd_def split: sum.splits)
  next
    case False
    then have i2: "input r (bs1 @ take (k - length bs1) bs2)" using i by simp
    have "input (adv (length bs1) r) (take (k - length bs1) bs2)" using input_adv[OF i2] .
    then have "fails (g x (adv (length bs1) r))"
      using decodes_short[OF g, of "k - length bs1"] k False by simp
    then show ?thesis using decodes_read[OF f i2] by (simp add: bnd_def)
  qed
qed

lemma decodes_bnd_ret:
  "decodes f bs x \<Longrightarrow> decodes (bnd f (\<lambda>x. ret (h x))) bs (h x)"
  using decodes_bnd[where g = "\<lambda>x. ret (h x)" and ?bs2.0 = "[]", OF _ decodes_ret] by simp

subsection \<open>The primitive reads\<close>

lemma input_drop: "input r bs \<Longrightarrow> drop (r_pos r) (r_buffer r) = bs"
  by (simp add: input_def)

lemma decodes_ReadByte: "decodes ReadByte [b] b"
proof (rule decodesI)
  fix r rest assume i: "input r ([b] @ rest)"
  have "r_buffer r ! r_pos r = b"
    using input_drop[OF i] input_length[OF i]
    by (metis append_Cons append_Nil nth_via_drop)
  then show "ReadByte r = (Inr b, adv (length [b]) r)"
    using input_length[OF i] by (simp add: ReadByte_def adv_def)
next
  fix r k assume "k < length [b]" "input r (take k [b])"
  then show "fails (ReadByte r)"
    using input_length[of r "[]"] by (simp add: ReadByte_def fails_def)
qed

lemma decodes_fixed:
  assumes "\<And>r. f r = (if r_pos r + n > length (r_buffer r) then (Inl (EndOfBuffer s), r)
                        else (Inr (g (drop (r_pos r) (r_buffer r))), adv n r))"
    and "length bs = n" and "\<And>rest. g (bs @ rest) = x"
  shows "decodes f bs x"
proof (rule decodesI)
  fix r rest assume i: "input r (bs @ rest)"
  show "f r = (Inr x, adv (length bs) r)"
    using input_length[OF i] input_drop[OF i] assms by simp
next
  fix r k assume "k < length bs" and i: "input r (take k bs)"
  then show "fails (f r)"
    using input_length[OF i] assms(1,2) by (simp add: fails_def)
qed

lemma decodes_ReadInt16: "decodes ReadInt16 (put16 x) x"
  by (rule decodes_fixed[where n = 2 and g = get16 and s = "''int16''"])
     (simp_all add: ReadInt16_def adv_def get16_put16)

lemma decodes_ReadInt32: "decodes ReadInt32 (put32 x) x"
  by (rule decodes_fixed[where n = 4 and g = get32 and s = "''int32''"])
     (simp_all add: ReadInt32_def adv_def get32_put32)

lemma decodes_ReadInt64: "decodes ReadInt64 (put64 x) x"
  by (rule decodes_fixed[where n = 8 and g = get64 and s = "''int64''"])
     (simp_all add: ReadInt64_def adv_def get64_put64)

lemma decodes_ReadFloat32: "decodes ReadFloat32 (put32 x) x"
  by (rule decodes_fixed[where n = 4 and g = get32 and s = "''float32''"])
     (simp_all add: ReadFloat32_def adv_def get32_put32)

lemma decodes_ReadFloat64: "decodes ReadFloat64 (put64 x) x"
  by (rule decodes_fixed[where n = 8 and g = get64 and s = "''float64''"])
     (simp_all add: ReadFloat64_def adv_def get64_put64)

lemma ReadBool_bnd: "ReadBool = bnd ReadByte (\<lambda>b. ret (b \<noteq> 0))"
  by (rule ext) (simp add: ReadBool_def bnd_def ret_def split: prod.splits sum.splits)

lemma decodes_ReadBool: "decodes ReadBool [if b then 1 else 0] b"
  unfolding ReadBool_bnd
  using decodes_bnd_ret[OF decodes_ReadByte[of "if b then 1 else 0"], where h = "\<lambda>b. b \<noteq> 0"]
  by (cases b) simp_all


definition raw :: "int \<Rightarrow> (Reader \<Rightarrow> error) \<Rightarrow> (byte list) rd" where
  "raw n err r =
     (if int (r_pos r) + n > int (length (r_buffer r)) then (Inl (err r), r)
      else (Inr (take (nat n) (drop (r_pos r) (r_buffer r))), adv (nat n) r))"

lemma decodes_raw:
  assumes "\<And>r. TruncatedInput (err r)"
  shows "decodes (raw (int (length bs)) err) bs bs"
proof (rule decodesI)
  fix r rest assume i: "input r (bs @ rest)"
  show "raw (int (length bs)) err r = (Inr bs, adv (length bs) r)"
    using input_length[OF i] input_drop[OF i] by (simp add: raw_def)
next
  fix r k assume "k < length bs" and i: "input r (take k bs)"
  then show "fails (raw (int (length bs)) err r)"
    using input_length[OF i] assms by (simp add: raw_def fails_def)
qed

lemma sint_of_nat_32: "n < 2 ^ 31 \<Longrightarrow> sint (word_of_nat n :: 32 word) = int n"
  using sint_sbintrunc'[where 'a = 32, of "int n"]
  by (simp add: signed_take_bit_int_eq_self)

lemma sint_not_of_nat_32: "n < 2 ^ 31 \<Longrightarrow> sint (NOT (word_of_nat n :: 32 word)) = - int n - 1"
proof -
  assume n: "n < 2 ^ 31"
  have "NOT (word_of_nat n :: 32 word) = word_of_int (- int n - 1)"
    by (simp add: not_eq_complement)
  then show ?thesis
    using sint_sbintrunc'[where 'a = 32, of "- int n - 1"] n
    by (simp add: signed_take_bit_int_eq_self)
qed

lemma of_nat_32_not_null: "n < 2 ^ 31 \<Longrightarrow> (word_of_nat n :: 32 word) \<noteq> NullCollection"
  using sint_of_nat_32[of n] by (auto simp add: NullCollection_def)

lemma ReadString_bnd:
  "ReadString = bnd ReadInt32 (\<lambda>byteCount.
     if sint byteCount \<ge> 0 then ret []
     else bnd ReadInt32 (\<lambda>_. raw (sint (NOT byteCount))
            (\<lambda>r2. ShortString (sint (NOT byteCount)) (int (length (r_buffer r2)) - int (r_pos r2)))))"
  by (rule ext) (simp add: ReadString_def bnd_def ret_def raw_def adv_def Let_def split: prod.splits sum.splits)

lemma ReadBytes_bnd:
  "ReadBytes = bnd ReadInt32 (\<lambda>len.
     if len = NullCollection then ret None
     else if sint len < 0 then (\<lambda>r1. (Inl (InvalidByteArrayLength (sint len)), r1))
     else bnd (raw (sint len) (\<lambda>r1. ShortBytes (sint len) (int (length (r_buffer r1)) - int (r_pos r1))))
            (\<lambda>bs. ret (Some bs)))"
  by (rule ext) (auto simp add: ReadBytes_def bnd_def ret_def raw_def adv_def Let_def split: prod.splits sum.splits)

lemma ReadCollectionHeader_bnd:
  "ReadCollectionHeader = bnd ReadInt32 (\<lambda>len.
     if len = NullCollection then ret (0, True) else ret (sint len, False))"
  by (rule ext) (simp add: ReadCollectionHeader_def bnd_def ret_def split: prod.splits sum.splits)

lemma ReadObjectHeader_bnd:
  "ReadObjectHeader = bnd ReadByte (\<lambda>header.
     if header = NullObject then ret (0, True) else ret (uint header, False))"
  by (rule ext) (simp add: ReadObjectHeader_def bnd_def ret_def split: prod.splits sum.splits)

lemma decodes_bnd0:
  "decodes f bs x \<Longrightarrow> g x = ret y \<Longrightarrow> decodes (bnd f g) bs y"
  using decodes_bnd[of f bs x g "[]" y] by (simp add: decodes_ret)

lemma decodes_ReadString:
  assumes "length s < 2 ^ 31"
  shows "decodes ReadString (wire TString (VString s)) s"
proof (cases "s = []")
  case True
  show ?thesis
    unfolding ReadString_bnd using True
    by (simp, intro decodes_bnd0[OF decodes_ReadInt32]) simp
next
  case False
  let ?n = "word_of_nat (length s) :: 32 word"
  have "decodes (bnd ReadInt32 (\<lambda>_. raw (int (length s))
            (\<lambda>r2. ShortString (int (length s)) (int (length (r_buffer r2)) - int (r_pos r2)))))
          (put32 ?n @ s) s"
    by (intro decodes_bnd[OF decodes_ReadInt32] decodes_raw) simp
  then show ?thesis
    unfolding ReadString_bnd using False assms
    by (simp, intro decodes_bnd[OF decodes_ReadInt32])
       (simp add: sint_not_of_nat_32 sint_of_nat_32)
qed

lemma decodes_ReadBytes_None: "decodes ReadBytes (put32 NullCollection) None"
  unfolding ReadBytes_bnd by (intro decodes_bnd0[OF decodes_ReadInt32]) simp

lemma decodes_ReadBytes_Some:
  assumes "length bs < 2 ^ 31"
  shows "decodes ReadBytes (put32 (word_of_nat (length bs)) @ bs) (Some bs)"
  unfolding ReadBytes_bnd using assms
  by (intro decodes_bnd[OF decodes_ReadInt32])
     (simp add: of_nat_32_not_null sint_of_nat_32 decodes_bnd_ret decodes_raw)

lemma decodes_header_null: "decodes ReadCollectionHeader (put32 NullCollection) (0, True)"
  unfolding ReadCollectionHeader_bnd by (intro decodes_bnd0[OF decodes_ReadInt32]) simp

lemma decodes_header:
  "n < 2 ^ 31 \<Longrightarrow> decodes ReadCollectionHeader (put32 (word_of_nat n)) (int n, False)"
  unfolding ReadCollectionHeader_bnd
  by (intro decodes_bnd0[OF decodes_ReadInt32]) (simp add: of_nat_32_not_null sint_of_nat_32)

lemma decodes_object_header:
  assumes "n \<le> 249"
  shows "decodes ReadObjectHeader [word_of_nat n] (int n, False)"
proof -
  have u: "uint (word_of_nat n :: 8 word) = int n"
  proof -
    have "unat (word_of_nat n :: 8 word) = n" using assms by (simp add: unat_of_nat)
    then show ?thesis by (metis of_nat_unat)
  qed
  then have "(word_of_nat n :: 8 word) \<noteq> NullObject"
    using assms by (auto simp add: NullObject_def)
  then show ?thesis
    unfolding ReadObjectHeader_bnd using u
    by (intro decodes_bnd0[OF decodes_ReadByte]) simp
qed

subsection \<open>The loops\<close>

lemma read_array_bnd:
  "i < length vs \<Longrightarrow>
   read_array f (Suc k) i vs = bnd (f (vs ! i)) (\<lambda>y. read_array f k (Suc i) (vs[i := y]))"
  by (rule ext) (simp add: bnd_def split: prod.splits sum.splits)

lemma read_array_decodes:
  assumes "length vs = i + length xs"
    and "\<And>j. j < length xs \<Longrightarrow> decodes (f (vs ! (i + j))) (enc (xs ! j)) (c (xs ! j))"
  shows "decodes (read_array f (length xs) i vs) (concat (map enc xs)) (take i vs @ map c xs)"
  using assms
proof (induction xs arbitrary: i vs)
  case Nil
  have "read_array f 0 i vs = ret vs" by (rule ext) (simp add: ret_def)
  then show ?case using Nil by (simp add: decodes_ret)
next
  case (Cons x xs)
  have i: "i < length vs" using Cons.prems(1) by simp
  have hd: "decodes (f (vs ! i)) (enc x) (c x)" using Cons.prems(2)[of 0] by simp
  have tl: "decodes (read_array f (length xs) (Suc i) (vs[i := c x])) (concat (map enc xs))
              (take (Suc i) (vs[i := c x]) @ map c xs)"
  proof (rule Cons.IH)
    show "length (vs[i := c x]) = Suc i + length xs" using Cons.prems(1) by simp
    fix j assume j: "j < length xs"
    have "decodes (f (vs ! (i + Suc j))) (enc ((x # xs) ! Suc j)) (c ((x # xs) ! Suc j))"
      using j by (intro Cons.prems(2)) simp
    then show "decodes (f (vs[i := c x] ! (Suc i + j))) (enc (xs ! j)) (c (xs ! j))" by simp
  qed
  have t: "take (Suc i) (vs[i := c x]) @ map c xs = take i vs @ c x # map c xs"
    using i by (simp add: take_Suc_conv_app_nth)
  show ?case
    using decodes_bnd[OF hd, where g = "\<lambda>y. read_array f (length xs) (Suc i) (vs[i := y])", OF tl]
    by (simp add: read_array_bnd[OF i] t)
qed

lemma read_map_bnd:
  "read_map eq (Suc n) fk fv m =
     bnd fk (\<lambda>k. bnd fv (\<lambda>x. read_map eq n fk fv (SetMapIndex eq k x m)))"
  by (rule ext) (simp add: bnd_def split: prod.splits sum.splits)

lemma read_map_decodes:
  assumes "list_all (\<lambda>kv. decodes fk (enck (fst kv)) (ck (fst kv))
                          \<and> decodes fv (encv (snd kv)) (cv (snd kv))) kvs"
  shows "decodes (read_map eq (length kvs) fk fv m)
           (concat (map (\<lambda>kv. enck (fst kv) @ encv (snd kv)) kvs))
           (foldl (\<lambda>m kv. SetMapIndex eq (ck (fst kv)) (cv (snd kv)) m) m kvs)"
  using assms
proof (induction kvs arbitrary: m)
  case Nil
  have "read_map eq 0 fk fv m = ret m" by (rule ext) (simp add: ret_def)
  then show ?case by (simp add: decodes_ret)
next
  case (Cons kv kvs)
  obtain k x where kv: "kv = (k, x)" by (cases kv)
  have dk: "decodes fk (enck k) (ck k)" and dv: "decodes fv (encv x) (cv x)"
    using Cons.prems(1) kv by simp_all
  let ?m' = "SetMapIndex eq (ck k) (cv x) m"
  let ?res = "foldl (\<lambda>m kv. SetMapIndex eq (ck (fst kv)) (cv (snd kv)) m) ?m' kvs"
  have tl: "decodes (read_map eq (length kvs) fk fv ?m')
           (concat (map (\<lambda>kv. enck (fst kv) @ encv (snd kv)) kvs)) ?res"
    using Cons.prems(1) by (intro Cons.IH) simp
  have "decodes (bnd fv (\<lambda>y. read_map eq (length kvs) fk fv (SetMapIndex eq (ck k) y m)))
          (encv x @ concat (map (\<lambda>kv. enck (fst kv) @ encv (snd kv)) kvs)) ?res"
    using decodes_bnd[OF dv, where g = "\<lambda>y. read_map eq (length kvs) fk fv (SetMapIndex eq (ck k) y m)"] tl
    by simp
  then have "decodes (bnd fk (\<lambda>k. bnd fv (\<lambda>y. read_map eq (length kvs) fk fv (SetMapIndex eq k y m))))
          (enck k @ encv x @ concat (map (\<lambda>kv. enck (fst kv) @ encv (snd kv)) kvs)) ?res"
    using decodes_bnd[OF dk, where g = "\<lambda>k. bnd fv (\<lambda>y. read_map eq (length kvs) fk fv (SetMapIndex eq k y m))"]
    by simp
  then show ?case by (simp add: read_map_bnd kv)
qed

lemma read_fields_bnd:
  "read_fields f (fi # fis) vs = bnd (f fi vs) (\<lambda>vs1. read_fields f fis vs1)"
  by (rule ext) (simp add: bnd_def split: prod.splits sum.splits)

lemma read_fields_decodes:
  assumes "distinct (map idx fis)"
    and "\<And>fi vs1. fi \<in> set fis \<Longrightarrow> length vs1 = n \<Longrightarrow> vs1 ! idx fi = z fi \<Longrightarrow>
           decodes (f fi vs1) (enc fi) (vs1[idx fi := tgt fi])"
    and "length vs = n" and "\<And>fi. fi \<in> set fis \<Longrightarrow> vs ! idx fi = z fi"
  shows "decodes (read_fields f fis vs) (concat (map enc fis))
           (fold (\<lambda>fi a. a[idx fi := tgt fi]) fis vs)"
  using assms
proof (induction fis arbitrary: vs)
  case Nil
  have "read_fields f [] vs = ret vs" by (rule ext) (simp add: ret_def)
  then show ?case by (simp add: decodes_ret)
next
  case (Cons fi fis)
  have hd: "decodes (f fi vs) (enc fi) (vs[idx fi := tgt fi])"
    using Cons.prems by simp
  have tl: "decodes (read_fields f fis (vs[idx fi := tgt fi])) (concat (map enc fis))
           (fold (\<lambda>fi a. a[idx fi := tgt fi]) fis (vs[idx fi := tgt fi]))"
  proof (rule Cons.IH)
    show "distinct (map idx fis)" using Cons.prems(1) by simp
    show "length (vs[idx fi := tgt fi]) = n" using Cons.prems(3) by simp
    show "\<And>fi' vs1. fi' \<in> set fis \<Longrightarrow> length vs1 = n \<Longrightarrow> vs1 ! idx fi' = z fi' \<Longrightarrow>
           decodes (f fi' vs1) (enc fi') (vs1[idx fi' := tgt fi'])"
      using Cons.prems(2) by simp
    fix fi' assume m: "fi' \<in> set fis"
    then have "idx fi' \<noteq> idx fi" using Cons.prems(1) by (auto simp add: image_iff)
    then show "vs[idx fi := tgt fi] ! idx fi' = z fi'" using Cons.prems(4) m by simp
  qed
  show ?case
    using decodes_bnd[OF hd, where g = "\<lambda>vs1. read_fields f fis vs1", OF tl]
    by (simp add: read_fields_bnd)
qed

lemma fold_update_nth:
  "i < length vs \<Longrightarrow>
   fold (\<lambda>fi a. a[idx fi := tv ! idx fi]) fis vs ! i = (if i \<in> idx ` set fis then tv ! i else vs ! i)"
proof (induction fis arbitrary: vs)
  case Nil
  then show ?case by simp
next
  case (Cons fi fis)
  then show ?case by (cases "i = idx fi") auto
qed

lemma length_fold_update [simp]:
  "length (fold (\<lambda>fi a. a[idx fi := g fi]) fis vs) = length vs"
  by (induction fis arbitrary: vs) simp_all

subsection \<open>The walker\<close>

definition fail :: "error \<Rightarrow> 'a rd" where
  "fail e r = (Inl e, r)"

lemma readValue_bnd:
  "readValue TBool cur = bnd ReadBool (\<lambda>x. ret (VBool x))"
  "readValue TInt8 cur = bnd ReadByte (\<lambda>x. ret (VInt8 x))"
  "readValue TInt16 cur = bnd ReadInt16 (\<lambda>x. ret (VInt16 x))"
  "readValue TInt32 cur = bnd ReadInt32 (\<lambda>x. ret (VInt32 x))"
  "readValue TInt cur = bnd ReadInt64 (\<lambda>x. ret (VInt64 x))"
  "readValue TInt64 cur = bnd ReadInt64 (\<lambda>x. ret (VInt64 x))"
  "readValue TFloat32 cur = bnd ReadFloat32 (\<lambda>x. ret (VFloat32 (via_float64 x)))"
  "readValue TFloat64 cur = bnd ReadFloat64 (\<lambda>x. ret (VFloat64 x))"
  "readValue TString cur = bnd ReadString (\<lambda>x. ret (VString x))"
  by (rule ext, simp add: bnd_def ret_def split: prod.splits sum.splits)+

lemma readValue_slice_bnd:
  "readValue (TSlice et) cur =
     (if kind_of et = KUint8 then bnd ReadBytes (\<lambda>bs. ret (VBytes bs))
      else bnd ReadCollectionHeader (\<lambda>h.
             if snd h then ret (VSlice None)
             else if fst h < 0 then fail (Panic ''reflect.MakeSlice: negative len'')
             else bnd (read_array (\<lambda>x r2. readValue et x r2) (nat (fst h)) 0 (MakeSlice et (nat (fst h))))
                    (\<lambda>vs. ret (VSlice (Some vs)))))"
  by (rule ext) (simp add: bnd_def ret_def fail_def Let_def split: prod.splits sum.splits)

lemma readValue_array_bnd:
  "readValue (TArray n et) (VArray vs) =
     bnd ReadCollectionHeader (\<lambda>h.
       if snd h then ret (VArray vs)
       else bnd (read_array (\<lambda>x r2. readValue et x r2) (nat (fst h)) 0 vs) (\<lambda>vs1. ret (VArray vs1)))"
  by (rule ext) (simp add: bnd_def ret_def split: prod.splits sum.splits)

lemma readValue_map_bnd:
  "readValue (TMap kt vt) cur =
     bnd ReadCollectionHeader (\<lambda>h.
       if snd h then ret (VMap None)
       else bnd (read_map (key_eq kt) (nat (fst h)) (\<lambda>r2. readValue kt (zero kt) r2)
                    (\<lambda>r2. readValue vt (zero vt) r2) [])
              (\<lambda>m. ret (VMap (Some m))))"
  by (rule ext) (simp add: bnd_def ret_def split: prod.splits sum.splits)

definition read_field :: "field list \<Rightarrow> fieldInfo \<Rightarrow> val list \<Rightarrow> (val list) rd" where
  "read_field fs fi vs1 r2 =
     (if fi_index fi < length fs \<and> fi_index fi < length vs1 then
        (if CanSet (fs ! fi_index fi) then
           (case readValue (f_type (fs ! fi_index fi)) (vs1 ! fi_index fi) r2 of
              (Inl e, r3) \<Rightarrow> (Inl e, r3)
            | (Inr x, r3) \<Rightarrow> (Inr (vs1[fi_index fi := x]), r3))
         else
           (case skipValue (fi_kind fi) r2 of
              (Some e, r3) \<Rightarrow> (Inl e, r3)
            | (None, r3) \<Rightarrow> (Inr vs1, r3)))
      else (Inl (Panic ''reflect: Field index out of range''), r2))"

lemma DeserializeStruct_bnd:
  "DeserializeStruct fs (VStruct vs) =
     bnd ReadObjectHeader (\<lambda>h.
       if snd h then ret (VStruct vs)
       else if fst h \<noteq> int (length (getFormatterData fs)) then fail FieldCountMismatch
       else bnd (read_fields (read_field fs) (getFormatterData fs) vs) (\<lambda>vs1. ret (VStruct vs1)))"
proof -
  have rf: "read_field fs = (\<lambda>fi vs1 r2.
     (if fi_index fi < length fs \<and> fi_index fi < length vs1 then
        (if CanSet (fs ! fi_index fi) then
           (case readValue (f_type (fs ! fi_index fi)) (vs1 ! fi_index fi) r2 of
              (Inl e, r3) \<Rightarrow> (Inl e, r3)
            | (Inr x, r3) \<Rightarrow> (Inr (vs1[fi_index fi := x]), r3))
         else
           (case skipValue (fi_kind fi) r2 of
              (Some e, r3) \<Rightarrow> (Inl e, r3)
            | (None, r3) \<Rightarrow> (Inr vs1, r3)))
      else (Inl (Panic ''reflect: Field index out of range''), r2)))"
    by (intro ext) (simp add: read_field_def)
  show ?thesis
    unfolding rf
    by (rule ext, subst DeserializeStruct.simps)
       (simp add: bnd_def ret_def fail_def Let_def split: prod.splits sum.splits)
qed

lemma read_field_bnd:
  "fi_index fi < length fs \<Longrightarrow> fi_index fi < length vs1 \<Longrightarrow> CanSet (fs ! fi_index fi) \<Longrightarrow>
   read_field fs fi vs1 =
     bnd (readValue (f_type (fs ! fi_index fi)) (vs1 ! fi_index fi)) (\<lambda>x. ret (vs1[fi_index fi := x]))"
  by (rule ext) (simp add: read_field_def bnd_def ret_def split: prod.splits sum.splits)

lemma wire_nonempty: "wf_val t v \<Longrightarrow> wire t v \<noteq> []"
proof (induction t arbitrary: v rule: ty_induct)
  case (TPtr et)
  then show ?case by (auto split: val.splits option.splits)
qed (auto split: val.splits option.splits if_splits simp add: put16_def put32_def put64_def)

lemma decodes_ptr_nil: "decodes (readValue (TPtr et) cur) [NullObject] (VPtr None)"
proof (rule decodesI)
  fix r rest assume i: "input r ([NullObject] @ rest)"
  have p: "Peek (Suc 0) r = (Inr [NullObject], r)"
    using input_length[OF i] input_drop[OF i] by (simp add: Peek_def)
  show "readValue (TPtr et) cur r = (Inr (VPtr None), adv (length [NullObject]) r)"
    using decodes_read[OF decodes_ReadByte i] by (simp add: p)
next
  fix r k assume "k < length [NullObject]" and i: "input r (take k [NullObject])"
  then have "Peek (Suc 0) r = (Inl (PeekEndOfBuffer (Suc 0)), r)"
    using input_length[OF i] by (simp add: Peek_def)
  then show "fails (readValue (TPtr et) cur r)" by (simp add: fails_def)
qed

lemma decodes_ptr_some:
  assumes d: "decodes (readValue et (zero et)) bs x" and ne: "bs \<noteq> []" and nf: "take 1 bs \<noteq> [NullObject]"
  shows "decodes (readValue (TPtr et) (VPtr None)) bs (VPtr (Some x))"
proof (rule decodesI)
  fix r rest assume i: "input r (bs @ rest)"
  obtain b bs' where bs: "bs = b # bs'" using ne by (cases bs) auto
  have p: "Peek (Suc 0) r = (Inr [b], r)"
    using input_length[OF i] input_drop[OF i] by (simp add: Peek_def bs)
  have "b \<noteq> NullObject" using nf bs by simp
  then show "readValue (TPtr et) (VPtr None) r = (Inr (VPtr (Some x)), adv (length bs) r)"
    using decodes_read[OF d i] by (simp add: p)
next
  fix r k assume k: "k < length bs" and i: "input r (take k bs)"
  show "fails (readValue (TPtr et) (VPtr None) r)"
  proof (cases k)
    case 0
    then have "Peek (Suc 0) r = (Inl (PeekEndOfBuffer (Suc 0)), r)"
      using input_length[OF i] by (simp add: Peek_def)
    then show ?thesis by (simp add: fails_def)
  next
    case (Suc k')
    obtain b bs' where bs: "bs = b # bs'" using ne by (cases bs) auto
    have p: "Peek (Suc 0) r = (Inr [b], r)"
      using input_length[OF i] input_drop[OF i] by (simp add: Peek_def bs Suc)
    have nb: "b \<noteq> NullObject" using nf bs by simp
    have "fails (readValue et (zero et) r)" using decodes_short[OF d k i] .
    then show ?thesis
      using nb by (cases "readValue et (zero et) r") (auto simp add: p fails_def split: sum.splits)
  qed
qed

lemma via_float64_idem: "via_float64 (via_float64 x) = via_float64 x"
  by (auto simp add: via_float64_def or.assoc)

lemma decodes_struct:
  assumes IH: "\<And>i v. i < length fs \<Longrightarrow> wf_val (f_type (fs ! i)) v \<Longrightarrow>
                 decodes (readValue (f_type (fs ! i)) (zero (f_type (fs ! i))))
                   (wire (f_type (fs ! i)) v) (canon (f_type (fs ! i)) v)"
    and ok: "wf_val (TStruct fs) (VStruct tv)"
  shows "decodes (DeserializeStruct fs (zero (TStruct fs))) (wire (TStruct fs) (VStruct tv))
           (canon (TStruct fs) (VStruct tv))"
proof -
  let ?fd = "getFormatterData fs"
  let ?z = "map (\<lambda>f. zero (f_type f)) fs"
  let ?enc = "\<lambda>fi. wire (f_type (fs ! fi_index fi)) (tv ! fi_index fi)"
  define cv where "cv = map (\<lambda>i. if serialised (fs ! i) then canon (f_type (fs ! i)) (tv ! i)
                             else zero (f_type (fs ! i))) [0..<length fs]"
  have cvl: "length cv = length fs" by (simp add: cv_def)
  have cvn: "\<And>i. i < length fs \<Longrightarrow> cv ! i = (if serialised (fs ! i) then canon (f_type (fs ! i)) (tv ! i)
                             else zero (f_type (fs ! i)))"
    by (simp add: cv_def)
  from ok have len: "length tv = length fs" and cnt: "length ?fd \<le> 249"
    and each: "\<And>i. i < length fs \<Longrightarrow> serialised (fs ! i) \<Longrightarrow> wf_val (f_type (fs ! i)) (tv ! i)"
    by (auto simp add: list_all_iff)
  have fields: "decodes (read_fields (read_field fs) ?fd ?z) (concat (map ?enc ?fd))
                  (fold (\<lambda>fi a. a[fi_index fi := cv ! fi_index fi]) ?fd ?z)"
  proof (rule read_fields_decodes[where n = "length fs" and z = "\<lambda>fi. zero (f_type (fs ! fi_index fi))"])
    show "distinct (map fi_index ?fd)" by (rule getFormatterData_distinct)
    show "length ?z = length fs" by simp
    show "\<And>fi. fi \<in> set ?fd \<Longrightarrow> ?z ! fi_index fi = zero (f_type (fs ! fi_index fi))"
      using getFormatterData_index by simp
    fix fi vs1 assume fi: "fi \<in> set ?fd" and l: "length vs1 = length fs"
      and z: "vs1 ! fi_index fi = zero (f_type (fs ! fi_index fi))"
    have i: "fi_index fi < length fs" and s: "serialised (fs ! fi_index fi)"
      using getFormatterData_index[OF fi] by simp_all
    have "wf_val (f_type (fs ! fi_index fi)) (tv ! fi_index fi)" using each[OF i s] .
    then have "decodes (readValue (f_type (fs ! fi_index fi)) (vs1 ! fi_index fi)) (?enc fi)
                 (cv ! fi_index fi)"
      using IH[OF i] z cvn[OF i] s by simp
    then show "decodes (read_field fs fi vs1) (?enc fi) (vs1[fi_index fi := cv ! fi_index fi])"
      using read_field_bnd[OF i _ getFormatterData_CanSet[OF fi], of vs1] l i
        decodes_bnd_ret[where h = "\<lambda>x. vs1[fi_index fi := x]"]
      by simp
  qed
  have res: "fold (\<lambda>fi a. a[fi_index fi := cv ! fi_index fi]) ?fd ?z = cv"
  proof (rule nth_equalityI)
    show "length (fold (\<lambda>fi a. a[fi_index fi := cv ! fi_index fi]) ?fd ?z) = length cv"
      using cvl by simp
    fix i assume "i < length (fold (\<lambda>fi a. a[fi_index fi := cv ! fi_index fi]) ?fd ?z)"
    then have i: "i < length fs" by simp
    show "fold (\<lambda>fi a. a[fi_index fi := cv ! fi_index fi]) ?fd ?z ! i = cv ! i"
    proof (cases "i \<in> fi_index ` set ?fd")
      case True
      then show ?thesis using i by (simp add: fold_update_nth)
    next
      case False
      then have "\<not> serialised (fs ! i)" using getFormatterData_complete[OF i] by blast
      then have "cv ! i = zero (f_type (fs ! i))" using cvn[OF i] by simp
      then show ?thesis using i False by (simp add: fold_update_nth)
    qed
  qed
  have body: "decodes (bnd (read_fields (read_field fs) ?fd ?z) (\<lambda>vs1. ret (VStruct vs1)))
                (concat (map ?enc ?fd)) (VStruct cv)"
    using decodes_bnd_ret[OF fields, where h = VStruct] by (simp add: res)
  have w: "wire (TStruct fs) (VStruct tv) = [word_of_nat (length ?fd)] @ concat (map ?enc ?fd)"
    using getFormatterData_index by (simp cong: map_cong)
  have c: "canon (TStruct fs) (VStruct tv) = VStruct cv" by (simp add: cv_def)
  show ?thesis
    unfolding w c zero.simps DeserializeStruct_bnd
    by (rule decodes_bnd[OF decodes_object_header[OF cnt]]) (simp add: body)
qed

lemma decodes_readValue_aux:
  "\<forall>v. wf_val t v \<longrightarrow> decodes (readValue t (zero t)) (wire t v) (canon t v)"
proof (induction t rule: ty_induct)
  case TBool
  show ?case
    using decodes_bnd_ret[OF decodes_ReadBool, where h = VBool]
    by (auto simp add: readValue_bnd simp del: readValue.simps split: val.splits)
next
  case TInt
  show ?case
    using decodes_bnd_ret[OF decodes_ReadInt64, where h = VInt64]
    by (auto simp add: readValue_bnd simp del: readValue.simps split: val.splits)
next
  case TInt8
  show ?case
    using decodes_bnd_ret[OF decodes_ReadByte, where h = VInt8]
    by (auto simp add: readValue_bnd simp del: readValue.simps split: val.splits)
next
  case TInt16
  show ?case
    using decodes_bnd_ret[OF decodes_ReadInt16, where h = VInt16]
    by (auto simp add: readValue_bnd simp del: readValue.simps split: val.splits)
next
  case TInt32
  show ?case
    using decodes_bnd_ret[OF decodes_ReadInt32, where h = VInt32]
    by (auto simp add: readValue_bnd simp del: readValue.simps split: val.splits)
next
  case TInt64
  show ?case
    using decodes_bnd_ret[OF decodes_ReadInt64, where h = VInt64]
    by (auto simp add: readValue_bnd simp del: readValue.simps split: val.splits)
next
  case TFloat32
  show ?case
  proof (intro allI impI)
    fix v assume "wf_val TFloat32 v"
    then obtain x where v: "v = VFloat32 x" by (cases v) auto
    have q: "via_float64 (via_float64 x) = via_float64 x"
      by (simp add: via_float64_idem)
    show "decodes (readValue TFloat32 (zero TFloat32)) (wire TFloat32 v) (canon TFloat32 v)"
      using decodes_bnd_ret[OF decodes_ReadFloat32[of "via_float64 x"], where h = "\<lambda>x. VFloat32 (via_float64 x)"]
      by (simp add: readValue_bnd v q del: readValue.simps)
  qed
next
  case TFloat64
  show ?case
    using decodes_bnd_ret[OF decodes_ReadFloat64, where h = VFloat64]
    by (auto simp add: readValue_bnd simp del: readValue.simps split: val.splits)
next
  case TString
  show ?case
  proof (intro allI impI)
    fix v assume "wf_val TString v"
    then obtain s where v: "v = VString s" and l: "length s < 2 ^ 31" by (cases v) auto
    show "decodes (readValue TString (zero TString)) (wire TString v) (canon TString v)"
      using decodes_bnd_ret[OF decodes_ReadString[OF l], where h = VString]
      unfolding readValue_bnd v by simp
  qed
next
  case (TSlice et)
  show ?case
  proof (intro allI impI)
    fix v assume ok: "wf_val (TSlice et) v"
    show "decodes (readValue (TSlice et) (zero (TSlice et))) (wire (TSlice et) v) (canon (TSlice et) v)"
    proof (cases v)
      case (VBytes ob)
      then have k: "kind_of et = KUint8" using ok by (simp split: option.splits)
      show ?thesis
      proof (cases ob)
        case None
        show ?thesis
          unfolding readValue_slice_bnd VBytes None
          using decodes_bnd_ret[OF decodes_ReadBytes_None, where h = VBytes] k by simp
      next
        case (Some bs)
        then have "length bs < 2 ^ 31" using ok VBytes by simp
        then show ?thesis
          unfolding readValue_slice_bnd VBytes Some
          using decodes_bnd_ret[OF decodes_ReadBytes_Some, where h = VBytes] k by simp
      qed
    next
      case (VSlice ovs)
      then have k: "kind_of et \<noteq> KUint8" using ok by (simp split: option.splits)
      show ?thesis
      proof (cases ovs)
        case None
        show ?thesis
          unfolding readValue_slice_bnd VSlice None using k
          by (simp, intro decodes_bnd0[OF decodes_header_null]) simp
      next
        case (Some vs)
        then have l: "length vs < 2 ^ 31" and all: "list_all (wf_val et) vs"
          using ok VSlice by simp_all
        have "decodes (read_array (\<lambda>x r2. readValue et x r2) (length vs) 0 (MakeSlice et (length vs)))
                (concat (map (wire et) vs)) (take 0 (MakeSlice et (length vs)) @ map (canon et) vs)"
        proof (rule read_array_decodes)
          show "length (MakeSlice et (length vs)) = 0 + length vs" by (simp add: MakeSlice_def)
          fix j assume j: "j < length vs"
          then have "wf_val et (vs ! j)" using all by (simp add: list_all_length)
          then show "decodes (readValue et (MakeSlice et (length vs) ! (0 + j))) (wire et (vs ! j)) (canon et (vs ! j))"
            using TSlice j by (simp add: MakeSlice_def)
        qed
        then have "decodes (bnd (read_array (\<lambda>x r2. readValue et x r2) (length vs) 0 (MakeSlice et (length vs)))
                     (\<lambda>vs. ret (VSlice (Some vs)))) (concat (map (wire et) vs)) (VSlice (Some (map (canon et) vs)))"
          using decodes_bnd_ret[where h = "\<lambda>vs. VSlice (Some vs)"] by fastforce
        then show ?thesis
          unfolding readValue_slice_bnd VSlice Some using k
          by (simp, intro decodes_bnd[OF decodes_header[OF l]]) simp
      qed
    qed (use ok in simp_all)
  qed
next
  case (TArray n et)
  show ?case
  proof (intro allI impI)
    fix v assume ok: "wf_val (TArray n et) v"
    then obtain vs where v: "v = VArray vs" and l: "length vs = n" "n < 2 ^ 31"
      and all: "list_all (wf_val et) vs" by (cases v) auto
    have "decodes (read_array (\<lambda>x r2. readValue et x r2) (length vs) 0 (replicate n (zero et)))
            (concat (map (wire et) vs)) (take 0 (replicate n (zero et)) @ map (canon et) vs)"
    proof (rule read_array_decodes)
      show "length (replicate n (zero et)) = 0 + length vs" using l by simp
      fix j assume j: "j < length vs"
      then have "wf_val et (vs ! j)" using all by (simp add: list_all_length)
      then show "decodes (readValue et (replicate n (zero et) ! (0 + j))) (wire et (vs ! j)) (canon et (vs ! j))"
        using TArray j l by simp
    qed
    then have "decodes (bnd (read_array (\<lambda>x r2. readValue et x r2) (length vs) 0 (replicate n (zero et)))
                 (\<lambda>vs. ret (VArray vs))) (concat (map (wire et) vs)) (VArray (map (canon et) vs))"
      using decodes_bnd_ret[where h = VArray] by fastforce
    then show "decodes (readValue (TArray n et) (zero (TArray n et))) (wire (TArray n et) v) (canon (TArray n et) v)"
      unfolding zero.simps readValue_array_bnd v using l
      by (simp, intro decodes_bnd[OF decodes_header]) simp_all
  qed
next
  case (TMap kt vt)
  show ?case
  proof (intro allI impI)
    fix v assume ok: "wf_val (TMap kt vt) v"
    show "decodes (readValue (TMap kt vt) (zero (TMap kt vt))) (wire (TMap kt vt) v) (canon (TMap kt vt) v)"
    proof (cases v)
      case (VMap om)
      show ?thesis
      proof (cases om)
        case None
        show ?thesis
          unfolding readValue_map_bnd VMap None
          by (simp, intro decodes_bnd0[OF decodes_header_null]) simp
      next
        case (Some kvs)
        then have l: "length kvs < 2 ^ 31"
          and all: "list_all (\<lambda>kv. wf_val kt (fst kv) \<and> wf_val vt (snd kv)) kvs"
          using ok VMap by simp_all
        let ?res = "foldl (\<lambda>m kv. SetMapIndex (key_eq kt) (canon kt (fst kv)) (canon vt (snd kv)) m) [] kvs"
        have "decodes (read_map (key_eq kt) (length kvs) (\<lambda>r2. readValue kt (zero kt) r2)
                    (\<lambda>r2. readValue vt (zero vt) r2) [])
               (concat (map (\<lambda>kv. wire kt (fst kv) @ wire vt (snd kv)) kvs)) ?res"
          using all TMap by (intro read_map_decodes) (simp add: list_all_iff)
        then have "decodes (bnd (read_map (key_eq kt) (length kvs) (\<lambda>r2. readValue kt (zero kt) r2)
                    (\<lambda>r2. readValue vt (zero vt) r2) []) (\<lambda>m. ret (VMap (Some m))))
               (concat (map (\<lambda>kv. wire kt (fst kv) @ wire vt (snd kv)) kvs)) (VMap (Some ?res))"
          using decodes_bnd_ret[where h = "\<lambda>m. VMap (Some m)"] by fastforce
        then show ?thesis
          unfolding readValue_map_bnd VMap Some
          by (simp, intro decodes_bnd[OF decodes_header[OF l]]) simp
      qed
    qed (use ok in simp_all)
  qed
next
  case (TStruct fs)
  show ?case
  proof (intro allI impI)
    fix v assume ok: "wf_val (TStruct fs) v"
    then obtain tv where v: "v = VStruct tv" by (cases v) auto
    show "decodes (readValue (TStruct fs) (zero (TStruct fs))) (wire (TStruct fs) v) (canon (TStruct fs) v)"
      unfolding v readValue.simps
      by (rule decodes_struct) (use TStruct ok v in auto)
  qed
next
  case (TPtr et)
  show ?case
  proof (intro allI impI)
    fix v assume ok: "wf_val (TPtr et) v"
    show "decodes (readValue (TPtr et) (zero (TPtr et))) (wire (TPtr et) v) (canon (TPtr et) v)"
    proof (cases v)
      case (VPtr ox)
      show ?thesis
      proof (cases ox)
        case None
        show ?thesis unfolding VPtr None using decodes_ptr_nil by simp
      next
        case (Some x)
        then have x: "wf_val et x"
          and nf: "wire et x = [NullObject] \<or> take 1 (wire et x) \<noteq> [NullObject]"
          using ok VPtr by simp_all
        show ?thesis
        proof (cases "wire et x = [NullObject]")
          case True
          then show ?thesis unfolding VPtr Some using decodes_ptr_nil[of et "VPtr None"] by simp
        next
          case False
          then have "take 1 (wire et x) \<noteq> [NullObject]" using nf by simp
          from decodes_ptr_some[where x = "canon et x", OF _ wire_nonempty[OF x] this] TPtr x False
          show ?thesis unfolding VPtr Some by simp
        qed
      qed
    qed (use ok in simp_all)
  qed
next
  case (TOther k)
  show ?case by simp
qed

lemma decodes_readValue:
  "wf_val t v \<Longrightarrow> decodes (readValue t (zero t)) (wire t v) (canon t v)"
  using decodes_readValue_aux by blast

fun nodup :: "('a \<Rightarrow> 'a \<Rightarrow> bool) \<Rightarrow> 'a list \<Rightarrow> bool" where
  "nodup eq [] = True"
| "nodup eq (x # xs) = (list_all (\<lambda>y. \<not> eq x y) xs \<and> nodup eq xs)"

fun faithful :: "ty \<Rightarrow> val \<Rightarrow> bool" where
  "faithful TFloat32 v = (case v of VFloat32 x \<Rightarrow> via_float64 x = x | _ \<Rightarrow> True)"
| "faithful (TSlice et) v = (case v of VSlice (Some vs) \<Rightarrow> list_all (faithful et) vs | _ \<Rightarrow> True)"
| "faithful (TArray n et) v = (case v of VArray vs \<Rightarrow> list_all (faithful et) vs | _ \<Rightarrow> True)"
| "faithful (TMap kt vt) v =
     (case v of
        VMap (Some kvs) \<Rightarrow>
          nodup (key_eq kt) (map fst kvs)
          \<and> list_all (\<lambda>kv. faithful kt (fst kv) \<and> faithful vt (snd kv)) kvs
      | _ \<Rightarrow> True)"
| "faithful (TStruct fs) v =
     (case v of
        VStruct vs \<Rightarrow>
          list_all (\<lambda>i. if serialised (fs ! i) then faithful (f_type (fs ! i)) (vs ! i)
                         else vs ! i = zero (f_type (fs ! i))) [0..<length fs]
      | _ \<Rightarrow> True)"
| "faithful (TPtr et) v =
     (case v of VPtr (Some x) \<Rightarrow> faithful et x \<and> wire et x \<noteq> [NullObject] | _ \<Rightarrow> True)"
| "faithful _ v = True"

lemma SetMapIndex_new:
  "list_all (\<lambda>p. \<not> eq (fst p) k) m \<Longrightarrow> SetMapIndex eq k v m = m @ [(k, v)]"
  by (induction m) simp_all

lemma nodup_append:
  "nodup eq (xs @ ys) = (nodup eq xs \<and> nodup eq ys \<and> list_all (\<lambda>x. list_all (\<lambda>y. \<not> eq x y) ys) xs)"
  by (induction xs) (auto simp add: list_all_iff)

lemma foldl_SetMapIndex_nodup:
  "nodup eq (map fst m @ map fst kvs) \<Longrightarrow>
   foldl (\<lambda>m kv. SetMapIndex eq (fst kv) (snd kv) m) m kvs = m @ kvs"
proof (induction kvs arbitrary: m)
  case Nil
  then show ?case by simp
next
  case (Cons kv kvs)
  have new: "SetMapIndex eq (fst kv) (snd kv) m = m @ [kv]"
    using Cons.prems by (subst SetMapIndex_new) (auto simp add: nodup_append list_all_iff)
  have "nodup eq (map fst (m @ [kv]) @ map fst kvs)" using Cons.prems by simp
  from Cons.IH[OF this] show ?case by (simp add: new)
qed

lemma canon_faithful_aux: "\<forall>v. wf_val t v \<longrightarrow> faithful t v \<longrightarrow> canon t v = v"
proof (induction t rule: ty_induct)
  case (TSlice et)
  then show ?case by (auto split: val.splits option.splits simp add: list_all_iff map_idI)
next
  case (TArray n et)
  then show ?case by (auto split: val.splits simp add: list_all_iff map_idI)
next
  case (TMap kt vt)
  show ?case
  proof (intro allI impI)
    fix v assume ok: "wf_val (TMap kt vt) v" and f: "faithful (TMap kt vt) v"
    show "canon (TMap kt vt) v = v"
    proof (cases v)
      case (VMap om)
      show ?thesis
      proof (cases om)
        case None
        then show ?thesis using VMap by simp
      next
        case (Some kvs)
        have id: "\<And>kv. kv \<in> set kvs \<Longrightarrow> canon kt (fst kv) = fst kv \<and> canon vt (snd kv) = snd kv"
          using ok f TMap VMap Some by (auto simp add: list_all_iff)
        have "foldl (\<lambda>m kv. SetMapIndex (key_eq kt) (canon kt (fst kv)) (canon vt (snd kv)) m) [] kvs
              = foldl (\<lambda>m kv. SetMapIndex (key_eq kt) (fst kv) (snd kv) m) [] kvs"
          using id by (intro foldl_cong) simp_all
        also have "\<dots> = [] @ kvs"
          using f VMap Some by (intro foldl_SetMapIndex_nodup) simp
        finally show ?thesis using VMap Some by simp
      qed
    qed simp_all
  qed
next
  case (TStruct fs)
  show ?case
  proof (intro allI impI)
    fix v assume ok: "wf_val (TStruct fs) v" and f: "faithful (TStruct fs) v"
    then obtain vs where v: "v = VStruct vs" and l: "length vs = length fs" by (cases v) auto
    have "map (\<lambda>i. if serialised (fs ! i) then canon (f_type (fs ! i)) (vs ! i)
                             else zero (f_type (fs ! i))) [0..<length fs] = vs"
    proof (rule nth_equalityI)
      show "length (map (\<lambda>i. if serialised (fs ! i) then canon (f_type (fs ! i)) (vs ! i)
                             else zero (f_type (fs ! i))) [0..<length fs]) = length vs"
        using l by simp
      fix i assume "i < length (map (\<lambda>i. if serialised (fs ! i) then canon (f_type (fs ! i)) (vs ! i)
                             else zero (f_type (fs ! i))) [0..<length fs])"
      then have i: "i < length fs" by simp
      show "map (\<lambda>i. if serialised (fs ! i) then canon (f_type (fs ! i)) (vs ! i)
                             else zero (f_type (fs ! i))) [0..<length fs] ! i = vs ! i"
        using TStruct[OF i] ok f i by (auto simp add: v list_all_iff)
    qed
    then show "canon (TStruct fs) v = v" by (simp add: v)
  qed
next
  case (TPtr et)
  then show ?case by (auto split: val.splits option.splits)
qed (auto split: val.splits)

lemma canon_faithful: "wf_val t v \<Longrightarrow> faithful t v \<Longrightarrow> canon t v = v"
  using canon_faithful_aux by blast

lemma Deserialize_readValue:
  "Deserialize None data (TPtr t) (VPtr (Some cur)) = fst (readValue t cur (NewReader data))"
  by (cases t) (simp_all add: Deserialize_def deserializeStruct_def)

lemma input_NewReader: "input (NewReader bs) bs"
  by (simp add: input_def NewReader_def)

lemma Deserialize_wire:
  assumes "wf_val t v"
  shows "Deserialize None (wire t v) (TPtr t) (VPtr (Some (zero t))) = Inr (canon t v)"
proof -
  have "input (NewReader (wire t v)) (wire t v @ [])" using input_NewReader[of "wire t v"] by simp
  from decodes_read[OF decodes_readValue[OF assms] this]
  show ?thesis by (simp add: Deserialize_readValue)
qed

lemma Deserialize_short:
  assumes "wf_val t v" and "k < length (wire t v)"
  shows "\<exists>e. Deserialize None (take k (wire t v)) (TPtr t) (VPtr (Some (zero t))) = Inl e
             \<and> TruncatedInput e"
proof -
  have "fails (readValue t (zero t) (NewReader (take k (wire t v))))"
    using decodes_short[OF decodes_readValue[OF assms(1)] assms(2) input_NewReader] .
  then show ?thesis
    by (cases "fst (readValue t (zero t) (NewReader (take k (wire t v))))")
       (simp_all add: Deserialize_readValue fails_def)
qed

(*CLAIMS*)
section \<open>Claims about the byte source\<close>

text \<open>
  C4 (as stated: no failing read moves the cursor). It fails for \<open>ReadBytes\<close>: on the five
  bytes \<open>05 00 00 00 01\<close> the length header 5 is read, the bounds check then fails, and the
  cursor stays at 4.
\<close>

theorem C4_ReadBytes_failure_moves_cursor:
  "r_pos (NewReader [5, 0, 0, 0, 1]) = 0
   \<and> fst (ReadBytes (NewReader [5, 0, 0, 0, 1])) = Inl (ShortBytes 5 1)
   \<and> r_pos (snd (ReadBytes (NewReader [5, 0, 0, 0, 1]))) = 4"
  by (simp add: ReadBytes_def ReadInt32_def NewReader_def get32_def NullCollection_def)

text \<open>
  C4 (amended). The buffer is never changed. \<open>ReadByte\<close>, \<open>ReadInt16/32/64\<close>,
  \<open>ReadFloat32/64\<close>, \<open>ReadCollectionHeader\<close> and \<open>ReadObjectHeader\<close> advance the cursor by
  exactly their width (1, 2, 4, 8, 4, 8, 4, 1) when they succeed and leave the reader
  unchanged when they fail. \<open>ReadBytes\<close> and \<open>ReadString\<close> advance by exactly the bytes
  consumed when they succeed (header and payload); when they fail, the cursor is unchanged
  only if the first header could not be read, and otherwise stays behind the headers
  already read (4 bytes for \<open>ReadBytes\<close>, 4 or 8 for \<open>ReadString\<close>).
\<close>

theorem C4_read_cursor:
  "snd (ReadByte r) = (if isl (fst (ReadByte r)) then r else r\<lparr>r_pos := r_pos r + 1\<rparr>)
 \<and> snd (ReadInt16 r) = (if isl (fst (ReadInt16 r)) then r else r\<lparr>r_pos := r_pos r + 2\<rparr>)
 \<and> snd (ReadInt32 r) = (if isl (fst (ReadInt32 r)) then r else r\<lparr>r_pos := r_pos r + 4\<rparr>)
 \<and> snd (ReadInt64 r) = (if isl (fst (ReadInt64 r)) then r else r\<lparr>r_pos := r_pos r + 8\<rparr>)
 \<and> snd (ReadFloat32 r) = (if isl (fst (ReadFloat32 r)) then r else r\<lparr>r_pos := r_pos r + 4\<rparr>)
 \<and> snd (ReadFloat64 r) = (if isl (fst (ReadFloat64 r)) then r else r\<lparr>r_pos := r_pos r + 8\<rparr>)
 \<and> snd (ReadCollectionHeader r) =
       (if isl (fst (ReadCollectionHeader r)) then r else r\<lparr>r_pos := r_pos r + 4\<rparr>)
 \<and> snd (ReadObjectHeader r) =
       (if isl (fst (ReadObjectHeader r)) then r else r\<lparr>r_pos := r_pos r + 1\<rparr>)
 \<and> r_buffer (snd (ReadBytes r)) = r_buffer r
 \<and> r_pos (snd (ReadBytes r)) =
       (case fst (ReadBytes r) of
          Inr None \<Rightarrow> r_pos r + 4
        | Inr (Some bs) \<Rightarrow> r_pos r + 4 + length bs
        | Inl (EndOfBuffer _) \<Rightarrow> r_pos r
        | Inl _ \<Rightarrow> r_pos r + 4)
 \<and> r_buffer (snd (ReadString r)) = r_buffer r
 \<and> r_pos (snd (ReadString r)) =
       (case fst (ReadString r) of
          Inr s \<Rightarrow> (if 0 \<le> sint (get32 (drop (r_pos r) (r_buffer r))) then r_pos r + 4
                    else r_pos r + 8 + length s)
        | Inl (EndOfBuffer _) \<Rightarrow>
            (if r_pos r + 4 > length (r_buffer r) then r_pos r else r_pos r + 4)
        | Inl _ \<Rightarrow> r_pos r + 8)"
proof -
  have fixed:
    "snd (ReadByte r) = (if isl (fst (ReadByte r)) then r else r\<lparr>r_pos := r_pos r + 1\<rparr>)"
    "snd (ReadInt16 r) = (if isl (fst (ReadInt16 r)) then r else r\<lparr>r_pos := r_pos r + 2\<rparr>)"
    "snd (ReadInt32 r) = (if isl (fst (ReadInt32 r)) then r else r\<lparr>r_pos := r_pos r + 4\<rparr>)"
    "snd (ReadInt64 r) = (if isl (fst (ReadInt64 r)) then r else r\<lparr>r_pos := r_pos r + 8\<rparr>)"
    "snd (ReadFloat32 r) = (if isl (fst (ReadFloat32 r)) then r else r\<lparr>r_pos := r_pos r + 4\<rparr>)"
    "snd (ReadFloat64 r) = (if isl (fst (ReadFloat64 r)) then r else r\<lparr>r_pos := r_pos r + 8\<rparr>)"
    "snd (ReadCollectionHeader r) =
       (if isl (fst (ReadCollectionHeader r)) then r else r\<lparr>r_pos := r_pos r + 4\<rparr>)"
    "snd (ReadObjectHeader r) =
       (if isl (fst (ReadObjectHeader r)) then r else r\<lparr>r_pos := r_pos r + 1\<rparr>)"
    by (simp_all add: ReadByte_def ReadInt16_def ReadInt32_def ReadInt64_def ReadFloat32_def
        ReadFloat64_def ReadCollectionHeader_def ReadObjectHeader_def)
  have bytes:
    "r_buffer (snd (ReadBytes r)) = r_buffer r \<and>
     r_pos (snd (ReadBytes r)) =
       (case fst (ReadBytes r) of
          Inr None \<Rightarrow> r_pos r + 4
        | Inr (Some bs) \<Rightarrow> r_pos r + 4 + length bs
        | Inl (EndOfBuffer _) \<Rightarrow> r_pos r
        | Inl _ \<Rightarrow> r_pos r + 4)"
    by (auto simp add: ReadBytes_def ReadInt32_def Let_def split: if_splits)
  have str:
    "r_buffer (snd (ReadString r)) = r_buffer r \<and>
     r_pos (snd (ReadString r)) =
       (case fst (ReadString r) of
          Inr s \<Rightarrow> (if 0 \<le> sint (get32 (drop (r_pos r) (r_buffer r))) then r_pos r + 4
                    else r_pos r + 8 + length s)
        | Inl (EndOfBuffer _) \<Rightarrow>
            (if r_pos r + 4 > length (r_buffer r) then r_pos r else r_pos r + 4)
        | Inl _ \<Rightarrow> r_pos r + 8)"
    by (auto simp add: ReadString_def ReadInt32_def Let_def split: if_splits)
  from fixed bytes str show ?thesis by blast
qed

text \<open>
  C10. When the next four bytes hold a non-negative little-endian int32 \<open>N\<close>, \<open>ReadString\<close>
  succeeds with the empty string and moves the cursor by exactly 4, whatever \<open>N\<close> is: for
  \<open>N > 0\<close> the payload stays unread. No failure of \<open>ReadString\<close> is a malformed header.
\<close>

theorem C10_ReadString_nonnegative_header:
  "r_pos r + 4 \<le> length (r_buffer r) \<Longrightarrow>
   0 \<le> sint (get32 (drop (r_pos r) (r_buffer r))) \<Longrightarrow>
   ReadString r = (Inr [], r\<lparr>r_pos := r_pos r + 4\<rparr>)
   \<and> (\<forall>r' e. fst (ReadString r') = Inl e \<longrightarrow> \<not> MalformedHeader e)"
  by (auto simp add: ReadString_def ReadInt32_def Let_def split: if_splits)

theorem C10_ReadString_nonnegative_header_witness:
  "r_pos (NewReader [3, 0, 0, 0, 97, 98, 99]) + 4 \<le> length (r_buffer (NewReader [3, 0, 0, 0, 97, 98, 99]))
   \<and> sint (get32 (drop (r_pos (NewReader [3, 0, 0, 0, 97, 98, 99]))
                    (r_buffer (NewReader [3, 0, 0, 0, 97, 98, 99])))) = 3
   \<and> ReadString (NewReader [3, 0, 0, 0, 97, 98, 99])
       = (Inr [], \<lparr>r_buffer = [3, 0, 0, 0, 97, 98, 99], r_pos = 4\<rparr>)"
  using C10_ReadString_nonnegative_header [of "NewReader [3, 0, 0, 0, 97, 98, 99]"]
  by (simp add: NewReader_def get32_def)

section \<open>Claims about the field order\<close>






section \<open>Claims about exact bytes, the formatter hook and the headers\<close>

lemma put32_minus1: "put32 (- 1) = [255, 255, 255, 255]" by code_simp

text \<open>
  C9. \<open>Serialize\<close> of \<open>int32(300)\<close> is exactly \<open>2C 01 00 00\<close>, of the empty string exactly
  \<open>00 00 00 00\<close>, and of a nil byte slice exactly \<open>FF FF FF FF\<close>: no version byte and no
  other framing is written.
\<close>

theorem C9_exact_bytes:
  "Serialize None TInt32 (VInt32 300) = Inr [0x2C, 0x01, 0x00, 0x00]
   \<and> Serialize None TString (VString []) = Inr [0x00, 0x00, 0x00, 0x00]
   \<and> Serialize None (TSlice (TOther KUint8)) (VBytes None) = Inr [0xFF, 0xFF, 0xFF, 0xFF]"
proof -
  have "Serialize None TInt32 (VInt32 300) = Inr (wire TInt32 (VInt32 300))"
    by (rule Serialize_wire) (simp_all add: MaxDepth_def nesting_def)
  moreover have "Serialize None TString (VString []) = Inr (wire TString (VString []))"
    by (rule Serialize_wire) (simp_all add: MaxDepth_def nesting_def)
  moreover have "Serialize None (TSlice (TOther KUint8)) (VBytes None)
      = Inr (wire (TSlice (TOther KUint8)) (VBytes None))"
    by (rule Serialize_wire) (simp_all add: MaxDepth_def nesting_def)
  moreover have "put32 300 = [0x2C, 0x01, 0x00, 0x00]" "put32 0 = [0, 0, 0, 0]"
    by (simp_all add: put32_def)
  ultimately show ?thesis
    by (simp add: NullCollection_def put32_minus1)
qed

definition CustomFormatT :: ty where
  "CustomFormatT = TStruct [Field ''IntValue'' [] [] TInt, Field ''StrValue'' [] [] TString]"

definition CustomFormat_Serialize :: wr where
  "CustomFormat_Serialize w = (None, WriteString [99, 117, 115, 116, 111, 109] (WriteInt32 42 w))"

lemma CustomFormat_fields:
  "getFormatterData [Field ''IntValue'' [] [] TInt, Field ''StrValue'' [] [] TString]
     = [\<lparr>fi_index = 0, fi_kind = KInt, fi_name = ''IntValue'', fi_order = 0\<rparr>,
        \<lparr>fi_index = 1, fi_kind = KString, fi_name = ''StrValue'', fi_order = 1\<rparr>]"
  by code_simp

lemma put32_not6: "put32 (NOT 6) = [249, 255, 255, 255]" by code_simp

text \<open>
  C2 (the code at the failing input). \<open>CustomFormatT\<close> is the test's \<open>CustomFormat\<close> struct and
  \<open>CustomFormat_Serialize\<close> its \<open>Serialize\<close> method. \<open>Serialize\<close> does not return after the
  formatter has written its 18 bytes: the generic struct encoding (23 bytes: the object
  header 2, the int64 42 and the string) follows them in the result.
\<close>

theorem C2_formatter_output_followed_by_generic:
  "Serialize (Some CustomFormat_Serialize) (TPtr CustomFormatT)
      (VPtr (Some (VStruct [VInt64 42, VString [99, 117, 115, 116, 111, 109]])))
     = Inr ([42, 0, 0, 0, 249, 255, 255, 255, 6, 0, 0, 0, 99, 117, 115, 116, 111, 109]
            @ [2, 42, 0, 0, 0, 0, 0, 0, 0, 249, 255, 255, 255, 6, 0, 0, 0, 99, 117, 115, 116, 111, 109])
   \<and> GetBytes (snd (CustomFormat_Serialize (NewWriter 128)))
     = [42, 0, 0, 0, 249, 255, 255, 255, 6, 0, 0, 0, 99, 117, 115, 116, 111, 109]"
proof -
  define w1 where "w1 = WriteString [99, 117, 115, 116, 111, 109] (WriteInt32 42 (NewWriter 128))"
  have a1: "appends (NewWriter 128) (WriteInt32 42 (NewWriter 128)) (put32 42)"
    by (rule WriteInt32_appends) (rule wfw_NewWriter)
  then have "wfw (WriteInt32 42 (NewWriter 128))" by (simp add: appends_def)
  from WriteString_appends[OF this, of "[99, 117, 115, 116, 111, 109]"] a1
  have w1: "wfw w1" "w_depth w1 = 0"
    "GetBytes w1 = [42, 0, 0, 0, 249, 255, 255, 255, 6, 0, 0, 0, 99, 117, 115, 116, 111, 109]"
    by (simp_all add: w1_def appends_def wfw_NewWriter put32_def put32_not6[unfolded put32_def])
  have f: "CustomFormat_Serialize (NewWriter 128) = (None, w1)"
    by (simp add: CustomFormat_Serialize_def w1_def)
  have ok: "wf_val (TPtr CustomFormatT) (VPtr (Some (VStruct [VInt64 42, VString [99, 117, 115, 116, 111, 109]])))"
    by (simp add: CustomFormatT_def CustomFormat_fields serialised_def NullObject_def)
  have h: "int (nesting (TPtr CustomFormatT) (VPtr (Some (VStruct [VInt64 42, VString [99, 117, 115, 116, 111, 109]])))) \<le> MaxDepth"
    by (simp add: nesting_def CustomFormatT_def CustomFormat_fields MaxDepth_def)
  have "wire (TPtr CustomFormatT) (VPtr (Some (VStruct [VInt64 42, VString [99, 117, 115, 116, 111, 109]])))
      = [2, 42, 0, 0, 0, 0, 0, 0, 0, 249, 255, 255, 255, 6, 0, 0, 0, 99, 117, 115, 116, 111, 109]"
    by (simp add: CustomFormatT_def CustomFormat_fields put32_def put64_def put32_not6[unfolded put32_def])
  with Serialize_formatter_wire[where fmt = CustomFormat_Serialize and ?w1.0 = w1, OF ok h f w1(1,2)]
    w1(3) f show ?thesis by simp
qed

text \<open>
  C3 (the code at the failing input). The four bytes \<open>FE FF FF FF\<close> are the int32 \<open>-2\<close>.
  \<open>ReadCollectionHeader\<close> returns it as a count, without error. Reading an array then
  succeeds and leaves the array untouched, reading a map succeeds with an empty map, and
  reading a slice reaches \<open>reflect.MakeSlice\<close> with a negative length, which panics. Only
  \<open>ReadBytes\<close> rejects a negative length.
\<close>

theorem C3_negative_header_accepted:
  "ReadCollectionHeader (NewReader [0xFE, 0xFF, 0xFF, 0xFF])
     = (Inr (- 2, False), \<lparr>r_buffer = [0xFE, 0xFF, 0xFF, 0xFF], r_pos = 4\<rparr>)
   \<and> Deserialize None [0xFE, 0xFF, 0xFF, 0xFF] (TPtr (TArray 2 TInt32))
        (VPtr (Some (zero (TArray 2 TInt32)))) = Inr (VArray [VInt32 0, VInt32 0])
   \<and> Deserialize None [0xFE, 0xFF, 0xFF, 0xFF] (TPtr (TMap TInt32 TInt32))
        (VPtr (Some (zero (TMap TInt32 TInt32)))) = Inr (VMap (Some []))
   \<and> Deserialize None [0xFE, 0xFF, 0xFF, 0xFF] (TPtr (TSlice TInt32))
        (VPtr (Some (zero (TSlice TInt32)))) = Inl (Panic ''reflect.MakeSlice: negative len'')"
proof -
  have h: "ReadCollectionHeader (NewReader [0xFE, 0xFF, 0xFF, 0xFF])
     = (Inr (- 2, False), \<lparr>r_buffer = [0xFE, 0xFF, 0xFF, 0xFF], r_pos = 4\<rparr>)"
    by (simp add: ReadCollectionHeader_def ReadInt32_def NewReader_def get32_def NullCollection_def)
  then show ?thesis
    by (simp add: Deserialize_def Let_def numeral_2_eq_2)
qed

text \<open>
  C8 (the code at the failing input). \<open>ReadObjectHeader\<close> returns the reserved byte 250 as
  the member count 250, without error; \<open>DeserializeStruct\<close> of a one-field struct then
  fails with the field-count mismatch, not with an unsupported-tag error.
\<close>

theorem C8_reserved_tag_accepted:
  "ReadObjectHeader (NewReader [0xFA]) = (Inr (250, False), \<lparr>r_buffer = [0xFA], r_pos = 1\<rparr>)
   \<and> Deserialize None [0xFA, 1, 0, 0, 0] (TPtr (TStruct [Field ''A'' [] [] TInt32]))
        (VPtr (Some (zero (TStruct [Field ''A'' [] [] TInt32])))) = Inl FieldCountMismatch"
proof -
  have h: "ReadObjectHeader (NewReader [0xFA, 1, 0, 0, 0])
      = (Inr (250, False), \<lparr>r_buffer = [0xFA, 1, 0, 0, 0], r_pos = 1\<rparr>)"
    by (simp add: ReadObjectHeader_def ReadByte_def NewReader_def NullObject_def)
  have g: "getFormatterData [Field ''A'' [] [] TInt32]
      = [\<lparr>fi_index = 0, fi_kind = KInt32, fi_name = ''A'', fi_order = 0\<rparr>]"
    by code_simp
  show ?thesis
    using h by (simp add: Deserialize_def deserializeStruct_def Let_def DeserializeStruct.simps g
        ReadObjectHeader_def ReadByte_def NewReader_def NullObject_def)
qed

section \<open>Claims about the depth counter\<close>

definition deep :: "error option \<times> Writer \<Rightarrow> bool" where
  "deep res = (fst res = Some DepthExceeded \<and> MaxDepth + 1 \<in> set (w_trace (snd res)))"

lemma with_depth_deep_fail: "w_depth w = MaxDepth \<Longrightarrow> deep (with_depth w body)"
  by (simp add: deep_def with_depth_def CheckDepth_def Let_def)

lemma with_depth_deep_body:
  "w_depth w < MaxDepth \<Longrightarrow>
   deep (body (w\<lparr>w_depth := w_depth w + 1, w_trace := w_trace w @ [w_depth w + 1]\<rparr>)) \<Longrightarrow>
   deep (with_depth w body)"
  by (auto simp add: deep_def with_depth_def CheckDepth_def Let_def EndCheckDepth_def split: prod.splits)

lemma write_all_deep_hd: "deep (f x w) \<Longrightarrow> deep (write_all f (x # xs) w)"
  by (cases "f x w") (auto simp add: deep_def)

lemma write_all_deep_tl:
  "f x w = (None, w1) \<Longrightarrow> deep (write_all f xs w1) \<Longrightarrow> deep (write_all f (x # xs) w)"
  by simp

definition LinkedNode :: "ty \<Rightarrow> field list" where
  "LinkedNode next = [Field ''Value'' [] [] TInt, Field ''Next'' [] [] (TPtr next)]"

fun chainT :: "nat \<Rightarrow> ty" where
  "chainT 0 = TStruct (LinkedNode (TStruct []))"
| "chainT (Suc n) = TStruct (LinkedNode (chainT n))"

fun chainV :: "nat \<Rightarrow> val" where
  "chainV 0 = VStruct [VInt64 0, VPtr None]"
| "chainV (Suc n) = VStruct [VInt64 0, VPtr (Some (chainV n))]"

lemma LinkedNode_fields:
  "getFormatterData (LinkedNode t)
     = [\<lparr>fi_index = 0, fi_kind = KInt, fi_name = ''Value'', fi_order = 0\<rparr>,
        \<lparr>fi_index = 1, fi_kind = KPtr, fi_name = ''Next'', fi_order = 1\<rparr>]"
  by (simp add: getFormatterData_def createFormatterData_def sortSlice_short LinkedNode_def Let_def)

lemma writeValue_int_ok:
  assumes "0 \<le> w_depth w" "w_depth w < MaxDepth"
  shows "\<exists>w1. writeValue TInt (VInt64 x) w = (None, w1) \<and> w_depth w1 = w_depth w"
proof -
  have f: "fst (writeValue TInt (VInt64 x) w) = None"
    using assms by (simp add: with_depth_def CheckDepth_def Let_def split: prod.splits)
  have "depth_run w (writeValue TInt (VInt64 x) w)"
    using assms by (intro depth_callD writeValue_call) simp_all
  then have "w_depth (snd (writeValue TInt (VInt64 x) w)) = w_depth w"
    using f by (auto simp add: depth_run_def)
  then show ?thesis using f by (cases "writeValue TInt (VInt64 x) w") simp
qed

lemma chain_struct:
  "SerializeStruct (LinkedNode t) (VStruct [a, b]) w =
     (case WriteObjectHeader 2 w of
        (Some e, w1) \<Rightarrow> (Some e, w1)
      | (None, w1) \<Rightarrow>
          write_all (\<lambda>fi w2. writeValue (f_type (LinkedNode t ! fi_index fi)) ([a, b] ! fi_index fi) w2)
            [\<lparr>fi_index = 0, fi_kind = KInt, fi_name = ''Value'', fi_order = 0\<rparr>,
             \<lparr>fi_index = 1, fi_kind = KPtr, fi_name = ''Next'', fi_order = 1\<rparr>] w1)"
  by (subst SerializeStruct.simps) (simp add: LinkedNode_fields Let_def, simp add: LinkedNode_def split: prod.splits option.splits)


lemma chain_deep:
  "0 \<le> w_depth w \<Longrightarrow> w_depth w \<le> MaxDepth \<Longrightarrow> MaxDepth \<le> w_depth w + 2 * int n \<Longrightarrow>
   deep (case chainT n of TStruct fs \<Rightarrow> SerializeStruct fs (chainV n) w | _ \<Rightarrow> (None, w))"
proof (induction n arbitrary: w)
  case 0
  then have d: "w_depth w = MaxDepth" by simp
  have h: "WriteObjectHeader 2 w = (None, WriteByte 2 w)" by (simp add: WriteObjectHeader_def)
  have d1: "w_depth (WriteByte 2 w) = MaxDepth"
    using same_depth_prims(1)[of w 2] d by (simp add: same_depth_def)
  show ?case
    by (simp add: chain_struct h del: writeValue.simps write_all.simps)
       (rule write_all_deep_hd, simp add: LinkedNode_def with_depth_deep_fail d1)
next
  case (Suc n)
  have h: "WriteObjectHeader 2 w = (None, WriteByte 2 w)" by (simp add: WriteObjectHeader_def)
  define w0 where "w0 = WriteByte 2 w"
  have d0: "w_depth w0 = w_depth w"
    using same_depth_prims(1)[of w 2] by (simp add: same_depth_def w0_def)
  let ?f = "\<lambda>fi w2. writeValue (f_type (LinkedNode (chainT n) ! fi_index fi))
              ([VInt64 0, VPtr (Some (chainV n))] ! fi_index fi) w2"
  let ?fd = "[\<lparr>fi_index = 0, fi_kind = KInt, fi_name = ''Value'', fi_order = 0\<rparr>,
             \<lparr>fi_index = 1, fi_kind = KPtr, fi_name = ''Next'', fi_order = 1\<rparr>]"
  have goal: "deep (write_all ?f ?fd w0)"
  proof (cases "w_depth w = MaxDepth")
    case True
    show ?thesis
      by (rule write_all_deep_hd) (simp add: LinkedNode_def with_depth_deep_fail d0 True)
  next
    case False
    then have lt: "w_depth w0 < MaxDepth" "0 \<le> w_depth w0" using Suc.prems d0 by simp_all
    obtain w1 where w1: "writeValue TInt (VInt64 0) w0 = (None, w1)" "w_depth w1 = w_depth w0"
      using writeValue_int_ok[OF lt(2,1)] by blast
    define w2 where "w2 = w1\<lparr>w_depth := w_depth w1 + 1, w_trace := w_trace w1 @ [w_depth w1 + 1]\<rparr>"
    have d2: "w_depth w2 = w_depth w + 1" by (simp add: w2_def w1 d0)
    have inner: "deep (writeValue (chainT n) (chainV n) w2)"
    proof (cases "w_depth w2 = MaxDepth")
      case True
      then show ?thesis by (cases n) (simp_all add: with_depth_deep_fail)
    next
      case F2: False
      define w3 where "w3 = w2\<lparr>w_depth := w_depth w2 + 1, w_trace := w_trace w2 @ [w_depth w2 + 1]\<rparr>"
      have "deep (case chainT n of TStruct fs \<Rightarrow> SerializeStruct fs (chainV n) w3 | _ \<Rightarrow> (None, w3))"
        using Suc.prems F2 False d2 by (intro Suc.IH) (simp_all add: w3_def)
      moreover have "w_depth w2 < MaxDepth" using F2 False d2 Suc.prems by simp
      ultimately show ?thesis
        by (cases n) (simp_all add: with_depth_deep_body w3_def)
    qed
    have nxt: "deep (writeValue (TPtr (chainT n)) (VPtr (Some (chainV n))) w1)"
      unfolding writeValue.simps
      by (rule with_depth_deep_body) (use lt w1 inner in \<open>simp_all add: w2_def del: writeValue.simps\<close>)
    show ?thesis
      apply (rule write_all_deep_tl[where ?w1.0 = w1])
       apply (simp add: LinkedNode_def w1 del: writeValue.simps)
      apply (rule write_all_deep_hd)
      apply (simp add: LinkedNode_def nxt del: writeValue.simps)
      done
  qed
  show ?case
    by (simp add: chain_struct h del: writeValue.simps write_all.simps) (use goal w0_def in simp)
qed

lemma chain_run:
  "Serialize_run None (TPtr (chainT 500)) (VPtr (Some (chainV 500))) =
     (case chainT 500 of TStruct fs \<Rightarrow> SerializeStruct fs (chainV 500) (NewWriter 128)
      | _ \<Rightarrow> (None, NewWriter 128))"
proof -
  obtain fs where fs: "chainT 500 = TStruct fs"
    using chainT.simps(2)[of 499] by simp
  show ?thesis
    by (simp add: Serialize_run_def Serialize_generic_def Elem_def fs del: chainT.simps chainV.simps)
qed

text \<open>
  C7 (the sentence as written fails). A list of 501 \<open>LinkedNode\<close>s (the struct of the test
  suite; \<open>chainT n\<close> is its type unrolled \<open>n\<close> times, \<open>chainV n\<close> the list of \<open>n + 1\<close> nodes)
  nests 1001 writes. \<open>CheckDepth\<close> increments the counter before it compares, so the counter
  takes the value \<open>MaxDepth + 1 = 1001\<close>; the failed check returns before \<open>EndCheckDepth\<close> is
  deferred, so every outer write undoes its own increment only and \<open>Serialize\<close> ends with the
  counter at 1, not 0.
\<close>

theorem C7_depth_reaches_1001:
  "fst (Serialize_run None (TPtr (chainT 500)) (VPtr (Some (chainV 500)))) = Some DepthExceeded
   \<and> MaxDepth + 1 \<in> set (w_trace (snd (Serialize_run None (TPtr (chainT 500)) (VPtr (Some (chainV 500))))))
   \<and> w_depth (snd (Serialize_run None (TPtr (chainT 500)) (VPtr (Some (chainV 500))))) = 1"
proof -
  let ?res = "Serialize_run None (TPtr (chainT 500)) (VPtr (Some (chainV 500)))"
  have "deep ?res"
    unfolding chain_run by (rule chain_deep) (simp_all add: NewWriter_def MaxDepth_def)
  moreover have "depth_run (NewWriter 128) ?res"
    unfolding Serialize_run_def by (simp add: Serialize_generic_run NewWriter_def MaxDepth_def del: chainT.simps chainV.simps)
  ultimately show ?thesis
    by (auto simp add: deep_def depth_run_def NewWriter_def)
qed

lemma Serialize_run_depth:
  assumes "case formatter of None \<Rightarrow> True | Some fmt \<Rightarrow> \<forall>w. same_depth w (snd (fmt w))"
  shows "depth_run (NewWriter 128) (Serialize_run formatter t v)"
proof (cases formatter)
  case None
  then show ?thesis
    unfolding Serialize_run_def by (simp add: Serialize_generic_run NewWriter_def MaxDepth_def)
next
  case (Some fmt)
  then have sd: "same_depth (NewWriter 128) (snd (fmt (NewWriter 128)))" using assms by simp
  then have d: "w_depth (snd (fmt (NewWriter 128))) = 0"
    by (simp add: same_depth_def NewWriter_def)
  show ?thesis
  proof (cases "fmt (NewWriter 128)")
    case (Pair r w1)
    show ?thesis
    proof (cases r)
      case None
      have "depth_run w1 (Serialize_generic t v w1)"
        using d Pair by (intro Serialize_generic_run) (simp_all add: MaxDepth_def)
      then have "depth_run (NewWriter 128) (Serialize_generic t v w1)"
        using sd Pair depth_run_after[of "NewWriter 128" w1] by simp
      then show ?thesis using Some Pair None by (simp add: Serialize_run_def)
    next
      case (Some e)
      then show ?thesis
        using \<open>formatter = Some fmt\<close> Pair sd by (simp add: Serialize_run_def depth_run_same)
    qed
  qed
qed

text \<open>
  C7 (amended). \<open>w_trace\<close> is the history of the counter: every value it takes, in order.
  In every \<open>Serialize\<close> call whose formatter, if any, leaves the counter alone, the counter
  starts at 0, moves by exactly one at a time and stays within \<open>0 .. MaxDepth + 1\<close>; the
  depth error is returned exactly when the counter has reached \<open>MaxDepth + 1\<close>, and the call
  ends with the counter at 0, or at 1 after the depth error. Every \<open>writeValue\<close> entered at
  a depth \<open>d\<close> within \<open>0 .. MaxDepth\<close> first increments the counter to \<open>d + 1\<close>, never takes
  it below \<open>d\<close> or above \<open>MaxDepth + 1\<close>, returns the depth error exactly when the counter
  has reached \<open>MaxDepth + 1\<close>, and leaves it at \<open>d\<close> on every exit, error exits included,
  except after the depth error, when it is left at \<open>d + 1\<close>.
\<close>

theorem C7_depth_counter:
  assumes "case formatter of None \<Rightarrow> True | Some fmt \<Rightarrow> \<forall>w. same_depth w (snd (fmt w))"
  shows "list_all (\<lambda>d. 0 \<le> d \<and> d \<le> MaxDepth + 1) (w_trace (snd (Serialize_run formatter t v)))
   \<and> unit_steps (0 # w_trace (snd (Serialize_run formatter t v)))
   \<and> last (0 # w_trace (snd (Serialize_run formatter t v))) = w_depth (snd (Serialize_run formatter t v))
   \<and> (fst (Serialize_run formatter t v) = Some DepthExceeded)
       = (MaxDepth + 1 \<in> set (w_trace (snd (Serialize_run formatter t v))))
   \<and> w_depth (snd (Serialize_run formatter t v))
       = (if fst (Serialize_run formatter t v) = Some DepthExceeded then 1 else 0)
   \<and> (\<forall>w. 0 \<le> w_depth w \<and> w_depth w \<le> MaxDepth \<longrightarrow> depth_call w (writeValue t v w))"
proof -
  have "depth_run (NewWriter 128) (Serialize_run formatter t v)"
    using assms by (rule Serialize_run_depth)
  then show ?thesis
    using writeValue_call by (auto simp add: depth_run_def NewWriter_def)
qed

theorem C7_depth_counter_witness:
  "0 \<le> w_depth (NewWriter 128) \<and> w_depth (NewWriter 128) \<le> MaxDepth
   \<and> depth_call (NewWriter 128) (writeValue (TPtr TInt8) (VPtr (Some (VInt8 1))) (NewWriter 128))
   \<and> w_trace (snd (writeValue (TPtr TInt8) (VPtr (Some (VInt8 1))) (NewWriter 128))) = [1, 2, 1, 0]
   \<and> w_trace (snd (Serialize_run None (TPtr TInt8) (VPtr (Some (VInt8 1))))) = [1, 0]
   \<and> unit_steps (0 # w_trace (snd (Serialize_run None (TPtr TInt8) (VPtr (Some (VInt8 1))))))"
proof -
  have 1: "w_trace (snd (writeValue (TPtr TInt8) (VPtr (Some (VInt8 1))) (NewWriter 128))) = [1, 2, 1, 0]"
    by (simp add: with_depth_def CheckDepth_def EndCheckDepth_def NewWriter_def MaxDepth_def
        WriteByte_def ensureCapacity_def Let_def)
  have 2: "w_trace (snd (Serialize_run None (TPtr TInt8) (VPtr (Some (VInt8 1))))) = [1, 0]"
    by (simp add: Serialize_run_def Serialize_generic_def with_depth_def CheckDepth_def
        EndCheckDepth_def NewWriter_def MaxDepth_def WriteByte_def ensureCapacity_def Let_def)
  show ?thesis
    using C7_depth_counter[of None "TPtr TInt8" "VPtr (Some (VInt8 1))"] 1 2
    by (simp add: NewWriter_def MaxDepth_def)
qed

section \<open>Claims about the round trip\<close>

lemma Serialize_generic_Elem:
  "kind_of et \<noteq> KPtr \<Longrightarrow> Serialize_generic (TPtr et) (VPtr (Some x)) = Serialize_generic et x"
  by (rule ext) (simp add: Serialize_generic_def)

lemma Serialize_Elem:
  assumes "kind_of et \<noteq> KPtr"
  shows "Serialize f (TPtr et) (VPtr (Some x)) = Serialize f et x"
  unfolding Serialize_def Serialize_run_def Serialize_generic_Elem[OF assms] by (rule refl)

definition RecordT :: ty where
  "RecordT = TStruct
     [Field ''ID'' [] [] TInt64, Field ''Name'' [] [] TString, Field ''Age'' [] [] TInt32,
      Field ''IsActive'' [] [] TBool, Field ''Tags'' [] [] (TSlice TString),
      Field ''Addresses'' [] [] (TMap TString TString),
      Field ''Parent'' [] [] (TPtr (TStruct [Field ''ID'' [] [] TInt64]))]"

definition RecordV :: val where
  "RecordV = VStruct
     [VInt64 12345, VString [74, 111], VInt32 42, VBool True,
      VSlice (Some [VString [103, 111]]), VMap (Some [(VString [97], VString [98])]),
      VPtr (Some (VStruct [VInt64 6789]))]"

definition RecordBytes :: "byte list" where
  "RecordBytes =
     [7, 57, 48, 0, 0, 0, 0, 0, 0, 253, 255, 255, 255, 2, 0, 0, 0, 74, 111, 42,
      0, 0, 0, 1, 1, 0, 0, 0, 253, 255, 255, 255, 2, 0, 0, 0, 103, 111, 1, 0, 0,
      0, 254, 255, 255, 255, 1, 0, 0, 0, 97, 254, 255, 255, 255, 1, 0, 0, 0, 98,
      1, 133, 26, 0, 0, 0, 0, 0, 0]"

lemma Record_fields:
  "getFormatterData
     [Field ''ID'' [] [] TInt64, Field ''Name'' [] [] TString, Field ''Age'' [] [] TInt32,
      Field ''IsActive'' [] [] TBool, Field ''Tags'' [] [] (TSlice TString),
      Field ''Addresses'' [] [] (TMap TString TString),
      Field ''Parent'' [] [] (TPtr (TStruct [Field ''ID'' [] [] TInt64]))]
   = [\<lparr>fi_index = 0, fi_kind = KInt64, fi_name = ''ID'', fi_order = 0\<rparr>,
      \<lparr>fi_index = 1, fi_kind = KString, fi_name = ''Name'', fi_order = 1\<rparr>,
      \<lparr>fi_index = 2, fi_kind = KInt32, fi_name = ''Age'', fi_order = 2\<rparr>,
      \<lparr>fi_index = 3, fi_kind = KBool, fi_name = ''IsActive'', fi_order = 3\<rparr>,
      \<lparr>fi_index = 4, fi_kind = KSlice, fi_name = ''Tags'', fi_order = 4\<rparr>,
      \<lparr>fi_index = 5, fi_kind = KMap, fi_name = ''Addresses'', fi_order = 5\<rparr>,
      \<lparr>fi_index = 6, fi_kind = KPtr, fi_name = ''Parent'', fi_order = 6\<rparr>]"
  "getFormatterData [Field ''ID'' [] [] TInt64]
   = [\<lparr>fi_index = 0, fi_kind = KInt64, fi_name = ''ID'', fi_order = 0\<rparr>]"
  by code_simp+

lemma Record_wire: "wire RecordT RecordV = RecordBytes"
  by (simp add: RecordT_def RecordV_def RecordBytes_def Record_fields) code_simp

lemma Record_ok:
  "wf_val RecordT RecordV" "int (nesting RecordT RecordV) \<le> MaxDepth" "faithful RecordT RecordV"
proof -
  have w: "wire (TStruct [Field ''ID'' [] [] TInt64]) (VStruct [VInt64 6789]) = [1, 133, 26, 0, 0, 0, 0, 0, 0]"
    by (simp add: Record_fields) code_simp
  show "wf_val RecordT RecordV"
    by (simp add: RecordT_def RecordV_def Record_fields serialised_def upt_rec[of 0] w NullObject_def
        del: wire.simps)
  show "int (nesting RecordT RecordV) \<le> MaxDepth"
    by (simp add: nesting_def RecordT_def RecordV_def Record_fields MaxDepth_def)
  show "faithful RecordT RecordV"
    by (simp add: RecordT_def RecordV_def Record_fields serialised_def upt_rec[of 0] w NullObject_def
        del: wire.simps)
qed


lemma put32_quiet: "put32 0x7FC00001 = [0x01, 0x00, 0xC0, 0x7F]"
  "via_float64 0x7F800001 = 0x7FC00001"
  by code_simp+

lemma byte_255: "(255 :: byte) = - 1"
  by simp

definition HiddenT :: ty where
  "HiddenT = TStruct [Field ''A'' [] [] TInt32, Field ''b'' ''main'' [] TInt32]"

lemma Hidden_fields:
  "getFormatterData [Field ''A'' [] [] TInt32, Field ''b'' ''main'' [] TInt32]
   = [\<lparr>fi_index = 0, fi_kind = KInt32, fi_name = ''A'', fi_order = 0\<rparr>]"
  by code_simp

text \<open>
  C1 (the sentence as written fails). A pointer to the \<open>int8\<close> \<open>-1\<close> is written as the element
  alone, the byte \<open>0xFF\<close>, which is the null marker: it comes back as a nil pointer. The
  \<open>float32\<close> signaling NaN \<open>0x7F800001\<close> is written and read back through \<open>float64\<close> and
  comes back as the quiet NaN \<open>0x7FC00001\<close>, another bit pattern. \<open>HiddenT\<close> is a struct of
  package \<open>main\<close> with an unexported field \<open>b\<close>; the field is not written and comes back zero.
\<close>

theorem C1_round_trip_fails:
  "Serialize None (TPtr TInt8) (VPtr (Some (VInt8 (- 1)))) = Inr [0xFF]
   \<and> Deserialize None [0xFF] (TPtr (TPtr TInt8)) (VPtr (Some (zero (TPtr TInt8)))) = Inr (VPtr None)
   \<and> Serialize None TFloat32 (VFloat32 0x7F800001) = Inr [0x01, 0x00, 0xC0, 0x7F]
   \<and> Deserialize None [0x01, 0x00, 0xC0, 0x7F] (TPtr TFloat32) (VPtr (Some (zero TFloat32)))
       = Inr (VFloat32 0x7FC00001)
   \<and> Serialize None HiddenT (VStruct [VInt32 1, VInt32 5]) = Inr [1, 1, 0, 0, 0]
   \<and> Deserialize None [1, 1, 0, 0, 0] (TPtr HiddenT) (VPtr (Some (zero HiddenT)))
       = Inr (VStruct [VInt32 1, VInt32 0])"
proof -
  have p: "wf_val (TPtr TInt8) (VPtr (Some (VInt8 (- 1))))" "int (nesting (TPtr TInt8) (VPtr (Some (VInt8 (- 1))))) \<le> MaxDepth"
    by (simp_all add: NullObject_def nesting_def MaxDepth_def)
  have f: "wf_val TFloat32 (VFloat32 0x7F800001)" "int (nesting TFloat32 (VFloat32 0x7F800001)) \<le> MaxDepth"
    by (simp_all add: nesting_def MaxDepth_def)
  have h: "wf_val HiddenT (VStruct [VInt32 1, VInt32 5])" "int (nesting HiddenT (VStruct [VInt32 1, VInt32 5])) \<le> MaxDepth"
    by (simp_all add: HiddenT_def Hidden_fields serialised_def nesting_def MaxDepth_def upt_rec[of 0])
  have hw: "wire HiddenT (VStruct [VInt32 1, VInt32 5]) = [1, 1, 0, 0, 0]"
    by (simp add: HiddenT_def Hidden_fields put32_def)
  have hc: "canon HiddenT (VStruct [VInt32 1, VInt32 5]) = VStruct [VInt32 1, VInt32 0]"
    by (simp add: HiddenT_def serialised_def upt_rec[of 0])
  show ?thesis
    using Serialize_wire[OF p] Deserialize_wire[OF p(1)]
      Serialize_wire[OF f] Deserialize_wire[OF f(1)]
      Serialize_wire[OF h] Deserialize_wire[OF h(1)]
    by (simp add: NullObject_def put32_quiet hw hc byte_255)
qed

text \<open>
  C1 (amended). Let \<open>v\<close> be a value of a supported type whose lengths fit an \<open>int32\<close>, whose
  structs have at most 249 serialised fields, whose nesting \<open>Serialize\<close> accepts, and in which
  the encoding of what a pointer refers to is the single byte \<open>0xFF\<close> or does not begin
  with it. Then \<open>Serialize\<close> succeeds, and deserializing its bytes into fresh storage of
  the type of \<open>v\<close> succeeds and yields \<open>canon t v\<close>. That is \<open>v\<close> itself, bit for bit (a quiet NaN
  included, the empty string as the empty string), whenever \<open>v\<close> is faithful: no \<open>float32\<close>
  is a signaling NaN, the fields that are not serialised are zero, no pointer refers to a
  value encoded as the single byte \<open>0xFF\<close>, and no two keys of a map are equal.
\<close>

theorem C1_round_trip:
  assumes "wf_val t v" and "int (nesting t v) \<le> MaxDepth"
  shows "\<exists>bs. Serialize None t v = Inr bs
            \<and> Deserialize None bs (TPtr t) (VPtr (Some (zero t))) = Inr (canon t v)
            \<and> (faithful t v \<longrightarrow> canon t v = v)"
  using Serialize_wire[OF assms] Deserialize_wire[OF assms(1)] canon_faithful[OF assms(1)]
  by blast

theorem C1_round_trip_witness:
  "wf_val RecordT RecordV \<and> int (nesting RecordT RecordV) \<le> MaxDepth \<and> faithful RecordT RecordV
   \<and> Serialize None RecordT RecordV = Inr RecordBytes
   \<and> Deserialize None RecordBytes (TPtr RecordT) (VPtr (Some (zero RecordT))) = Inr RecordV"
proof -
  have s: "Serialize None RecordT RecordV = Inr RecordBytes"
    using Serialize_wire[OF Record_ok(1,2)] by (simp add: Record_wire)
  from C1_round_trip[OF Record_ok(1,2)] s Record_ok
  show ?thesis by auto
qed

section \<open>Claims about truncated input\<close>

text \<open>
  C5 (the sentence as written fails). A pointer to the \<open>int32\<close> 255 is written as
  \<open>FF 00 00 00\<close>. Cut after the first byte, the input is the null marker alone and
  \<open>Deserialize\<close> succeeds with a nil pointer.
\<close>

theorem C5_truncated_prefix_accepted:
  "Serialize None (TPtr TInt32) (VPtr (Some (VInt32 255))) = Inr [0xFF, 0, 0, 0]
   \<and> Deserialize None (take 1 [0xFF, 0, 0, 0]) (TPtr (TPtr TInt32)) (VPtr (Some (zero (TPtr TInt32))))
       = Inr (VPtr None)"
proof -
  have i: "wf_val TInt32 (VInt32 255)" "int (nesting TInt32 (VInt32 255)) \<le> MaxDepth"
    by (simp_all add: nesting_def MaxDepth_def)
  have n: "wf_val (TPtr TInt32) (VPtr None)" by simp
  have "Serialize None (TPtr TInt32) (VPtr (Some (VInt32 255))) = Inr (wire TInt32 (VInt32 255))"
    using Serialize_wire[OF i] by (simp add: Serialize_Elem)
  then show ?thesis
    using Deserialize_wire[OF n] by (simp add: put32_def NullObject_def)
qed

text \<open>
  C5 (amended). For every value as in C1 (supported type, lengths within \<open>int32\<close>, at most
  249 serialised fields, accepted nesting, and no pointer to a value whose encoding begins
  with \<open>0xFF\<close> and is longer than that byte), \<open>Serialize\<close> succeeds and \<open>Deserialize\<close> of
  every proper prefix of its output, at a boundary or not, into fresh storage of the
  value's type fails with a TruncatedInput error: it neither panics nor returns a value.
\<close>

theorem C5_truncation:
  assumes "wf_val t v" and "int (nesting t v) \<le> MaxDepth"
  shows "\<exists>bs. Serialize None t v = Inr bs
            \<and> (\<forall>k<length bs. \<exists>e. Deserialize None (take k bs) (TPtr t) (VPtr (Some (zero t))) = Inl e
                                  \<and> TruncatedInput e)"
  using Serialize_wire[OF assms] Deserialize_short[OF assms(1)] by blast

theorem C5_truncation_witness:
  "wf_val RecordT RecordV \<and> int (nesting RecordT RecordV) \<le> MaxDepth
   \<and> Serialize None RecordT RecordV = Inr RecordBytes
   \<and> (\<exists>e. Deserialize None (take 20 RecordBytes) (TPtr RecordT) (VPtr (Some (zero RecordT))) = Inl e
           \<and> TruncatedInput e)
   \<and> (\<exists>e. Deserialize None (take 68 RecordBytes) (TPtr RecordT) (VPtr (Some (zero RecordT))) = Inl e
           \<and> TruncatedInput e)"
proof -
  have s: "Serialize None RecordT RecordV = Inr RecordBytes"
    using Serialize_wire[OF Record_ok(1,2)] by (simp add: Record_wire)
  have l: "20 < length RecordBytes" "68 < length RecordBytes" by (simp_all add: RecordBytes_def)
  from C5_truncation[OF Record_ok(1,2)] s l Record_ok(1,2)
  show ?thesis by auto
qed

end
